theory Spec2Isabelle
  imports Main
begin

section \<open>BACKUP STAGE: the data of sql/backup.cc\<close>

text \<open>
  Modelled from the spec: the declaration of \<open>enum backup_stages\<close> (sql/backup.h) is not
  among the sources; its six stages are the specification's. Their numbers are the ones
  backup.cc relies on. \<open>BACKUP_START\<close> to \<open>BACKUP_END\<close> are 0 to 4: a stage parsed through
  \<open>TYPELIB backup_stage_names\<close> is the index of its name in \<open>stage_names\<close>, and
  \<open>run_backup_stage\<close> indexes \<open>stage_names\<close> by the enumerator. \<open>BACKUP_FINISHED\<close> is the
  enumerator after \<open>BACKUP_END\<close>, 5: the only way \<open>next_stage\<close> can meet the
  \<open>case BACKUP_FINISHED\<close> of the dispatch switch is by \<open>next_stage + 1\<close> from
  \<open>BACKUP_END\<close>, and 5 is the index of the null entry that ends \<open>stage_names\<close>. (The
  specification's ladder puts FINISHED below START; under the \<open>(uint)\<close> casts of
  \<open>run_backup_stage\<close> it is above every other stage.)
\<close>

datatype backup_stages =
    BACKUP_START
  | BACKUP_FLUSH
  | BACKUP_WAIT_FOR_FLUSH
  | BACKUP_LOCK_COMMIT
  | BACKUP_END
  | BACKUP_FINISHED

text \<open>The cast \<open>(uint) stage\<close>.\<close>

fun stage_uint :: "backup_stages \<Rightarrow> nat" where
  "stage_uint BACKUP_START = 0"
| "stage_uint BACKUP_FLUSH = 1"
| "stage_uint BACKUP_WAIT_FOR_FLUSH = 2"
| "stage_uint BACKUP_LOCK_COMMIT = 3"
| "stage_uint BACKUP_END = 4"
| "stage_uint BACKUP_FINISHED = 5"

text \<open>
  \<open>(backup_stages) ((uint) stage + 1)\<close>. The value 6 that follows \<open>BACKUP_FINISHED\<close> is
  no enumerator: \<open>None\<close>.
\<close>

fun stage_succ :: "backup_stages \<Rightarrow> backup_stages option" where
  "stage_succ BACKUP_START = Some BACKUP_FLUSH"
| "stage_succ BACKUP_FLUSH = Some BACKUP_WAIT_FOR_FLUSH"
| "stage_succ BACKUP_WAIT_FOR_FLUSH = Some BACKUP_LOCK_COMMIT"
| "stage_succ BACKUP_LOCK_COMMIT = Some BACKUP_END"
| "stage_succ BACKUP_END = Some BACKUP_FINISHED"
| "stage_succ BACKUP_FINISHED = None"

text \<open>
  \<open>static const char *stage_names[] = {"START", "FLUSH", "BLOCK_DDL", "BLOCK_COMMIT",
  "END", 0}\<close>, read at the index of a stage. A \<open>char *\<close> is a \<open>string option\<close>: the sixth
  entry is the null pointer.
\<close>

fun stage_names :: "backup_stages \<Rightarrow> string option" where
  "stage_names BACKUP_START = Some ''START''"
| "stage_names BACKUP_FLUSH = Some ''FLUSH''"
| "stage_names BACKUP_WAIT_FOR_FLUSH = Some ''BLOCK_DDL''"
| "stage_names BACKUP_LOCK_COMMIT = Some ''BLOCK_COMMIT''"
| "stage_names BACKUP_END = Some ''END''"
| "stage_names BACKUP_FINISHED = None"

text \<open>
  The stage ladder of the specification, \<open>FINISHED < START < FLUSH < WAIT_FOR_FLUSH <
  LOCK_COMMIT < END\<close>. The code never compares with it; it is used to state monotonicity.
\<close>

fun ladder :: "backup_stages \<Rightarrow> nat" where
  "ladder BACKUP_FINISHED = 0"
| "ladder BACKUP_START = 1"
| "ladder BACKUP_FLUSH = 2"
| "ladder BACKUP_WAIT_FOR_FLUSH = 3"
| "ladder BACKUP_LOCK_COMMIT = 4"
| "ladder BACKUP_END = 5"

text \<open>The metadata lock types that backup.cc names (\<open>enum_mdl_type\<close>, sql/mdl.h).\<close>

datatype enum_mdl_type =
    MDL_BACKUP_FLUSH
  | MDL_BACKUP_WAIT_FLUSH
  | MDL_BACKUP_WAIT_DDL
  | MDL_BACKUP_WAIT_COMMIT
  | MDL_BACKUP_DML
  | MDL_BACKUP_DDL
  | MDL_BACKUP_ALTER_COPY

datatype flush_tables_type = FLUSH_NON_TRANS_TABLES | FLUSH_SYS_TABLES

text \<open>
  The errors raised through \<open>my_error\<close>. The two backup errors that name a stage carry the
  entries of \<open>stage_names\<close> they were given. \<open>ER_READ_ONLY_PROTECTION\<close> stands for the error
  that \<open>THD::has_read_only_protection\<close> raises (the specification's ReadOnlyProtection).
\<close>

datatype my_err =
    ER_BACKUP_NOT_RUNNING
  | ER_BACKUP_WRONG_STAGE "string option" "string option"
  | ER_BACKUP_STAGE_FAILED "string option"
  | ER_LOCK_OR_ACTIVE_TRANSACTION
  | ER_READ_ONLY_PROTECTION

text \<open>
  What a call does besides changing the variables, in program order: the \<open>DBUG_ENTER\<close> of each
  function, every assignment to \<open>thd->current_backup_stage\<close> and to \<open>backup_running\<close>, the
  errors raised, and the calls to the mutex and condition, the lock manager, the table cache
  and the storage engines.
\<close>

datatype event =
    Dbug_enter string
  | Set_stage backup_stages
  | My_error my_err
  | Dbug_assert_0
  | Mutex_lock
  | Enter_cond
  | Cond_wait
  | Cond_signal
  | Exit_cond
  | Mutex_unlock
  | Set_running bool
  | Acquire_lock enum_mdl_type "nat option"
  | Upgrade_lock nat enum_mdl_type bool
  | Downgrade_lock nat enum_mdl_type
  | Release_lock nat
  | Purge_tables
  | Flush_tables flush_tables_type bool
  | Ha_prepare_for_backup
  | Ha_end_backup

text \<open>
  The state one session works on: its \<open>THD\<close> fields, the two file-level statics
  \<open>backup_running\<close> and \<open>backup_flush_ticket\<close>, the tickets the lock manager has granted
  (a ticket pointer is a \<open>nat option\<close>, \<open>None\<close> the null pointer), and what the rest of the
  server will answer:
  \<^item> \<open>lock_script\<close>: for each coming blocking lock-manager call, whether it fails (timeout or
    kill); a call past the end of the list succeeds;
  \<^item> \<open>flush_script\<close>: for each coming \<open>flush_tables\<close>, whether it fails and whether it raises
    a session error;
  \<^item> \<open>wakeups\<close>: for each coming return of \<open>mysql_cond_wait\<close>, the values of
    \<open>backup_running\<close> and \<open>thd->killed\<close> the other threads have left. When the list is used up
    nobody signals \<open>COND_backup\<close> any more.
\<close>

record sys =
  current_backup_stage :: backup_stages
  read_only_protection :: bool
  locked_tables_mode :: bool
  killed :: bool
  is_error :: bool
  mdl_backup_ticket :: "nat option"
  backup_running :: bool
  backup_flush_ticket :: "nat option"
  tickets :: "nat \<rightharpoonup> enum_mdl_type"
  next_ticket :: nat
  lock_script :: "bool list"
  flush_script :: "(bool \<times> bool) list"
  wakeups :: "(bool \<times> bool) list"
  trace :: "event list"

text \<open>
  A call either returns (\<open>Inr\<close> of its \<open>bool\<close> result, \<open>True\<close> for failure as in the source,
  and the state), or does not (\<open>Inl\<close> of the reason and the state it stops in): it waits on
  \<open>COND_backup\<close> for ever, or dereferences a ticket pointer that is null or not granted, or
  leaves the enumerators of \<open>backup_stages\<close>.
\<close>

datatype stop = Blocked | Bad_ticket | Bad_stage

type_synonym 'a outcome = "stop \<times> sys + 'a \<times> sys"

definition log :: "event \<Rightarrow> sys \<Rightarrow> sys" where
  "log e thd = thd\<lparr>trace := trace thd @ [e]\<rparr>"

text \<open>\<open>thd->current_backup_stage= stage\<close>.\<close>

definition set_stage :: "backup_stages \<Rightarrow> sys \<Rightarrow> sys" where
  "set_stage stage thd = log (Set_stage stage) (thd\<lparr>current_backup_stage := stage\<rparr>)"

text \<open>\<open>my_error(...)\<close>.\<close>

definition my_error :: "my_err \<Rightarrow> sys \<Rightarrow> sys" where
  "my_error e thd = log (My_error e) thd"

text \<open>\<open>backup_init\<close>, and a session that has not run a backup.\<close>

definition backup_init :: "sys \<Rightarrow> sys" where
  "backup_init thd =
     (log (Set_running False) (thd\<lparr>backup_running := False\<rparr>))\<lparr>backup_flush_ticket := None\<rparr>"

definition thd_init :: sys where
  "thd_init =
     \<lparr>current_backup_stage = BACKUP_FINISHED, read_only_protection = False,
      locked_tables_mode = False, killed = False, is_error = False,
      mdl_backup_ticket = None, backup_running = False, backup_flush_ticket = None,
      tickets = Map.empty, next_ticket = 1, lock_script = [], flush_script = [],
      wakeups = [], trace = []\<rparr>"

section \<open>The collaborators\<close>

text \<open>
  Modelled from the spec: the lock manager (sql/mdl.cc), the table cache (sql/sql_base.cc) and
  \<open>THD::has_read_only_protection\<close> (sql/sql_class.h) are not among the sources. The
  specification gives their contracts: \<open>acquire(kind, mode, scope, timeout) -> Ticket|Fail\<close>,
  \<open>upgrade(ticket, mode, timeout) -> ok|Fail\<close>, \<open>downgrade(ticket, mode)\<close>,
  \<open>release(ticket)\<close>, \<open>flush_tables(scope) -> ok|Fail\<close>, \<open>purge_unused_tables()\<close>; a
  successful acquire grants a new ticket in the mode asked for, a successful upgrade and a
  downgrade leave the ticket in the mode asked for.
\<close>

definition lock_outcome :: "sys \<Rightarrow> bool \<times> sys" where
  "lock_outcome thd =
     (case lock_script thd of
        [] \<Rightarrow> (False, thd)
      | r # rs \<Rightarrow> (r, thd\<lparr>lock_script := rs\<rparr>))"

definition acquire_lock :: "enum_mdl_type \<Rightarrow> sys \<Rightarrow> bool \<times> nat option \<times> sys" where
  "acquire_lock ty thd =
     (let (failed, thd1) = lock_outcome thd in
      if failed then (True, None, log (Acquire_lock ty None) thd1)
      else
        (let t = next_ticket thd1 in
         (False, Some t,
          log (Acquire_lock ty (Some t))
            (thd1\<lparr>tickets := (tickets thd1)(t \<mapsto> ty), next_ticket := Suc t\<rparr>))))"

definition upgrade_shared_lock :: "nat option \<Rightarrow> enum_mdl_type \<Rightarrow> sys \<Rightarrow> bool outcome" where
  "upgrade_shared_lock ticket ty thd =
     (case ticket of
        None \<Rightarrow> Inl (Bad_ticket, thd)
      | Some t \<Rightarrow>
          (if tickets thd t = None then Inl (Bad_ticket, thd)
           else
             (let (failed, thd1) = lock_outcome thd in
              if failed then Inr (True, log (Upgrade_lock t ty False) thd1)
              else
                Inr (False,
                  log (Upgrade_lock t ty True) (thd1\<lparr>tickets := (tickets thd1)(t \<mapsto> ty)\<rparr>)))))"

definition downgrade_lock :: "nat \<Rightarrow> enum_mdl_type \<Rightarrow> sys \<Rightarrow> unit outcome" where
  "downgrade_lock t ty thd =
     (if tickets thd t = None then Inl (Bad_ticket, thd)
      else Inr ((), log (Downgrade_lock t ty) (thd\<lparr>tickets := (tickets thd)(t \<mapsto> ty)\<rparr>)))"

definition release_lock :: "nat \<Rightarrow> sys \<Rightarrow> sys" where
  "release_lock t thd = log (Release_lock t) (thd\<lparr>tickets := (tickets thd)(t := None)\<rparr>)"

definition flush_tables :: "flush_tables_type \<Rightarrow> sys \<Rightarrow> bool \<times> sys" where
  "flush_tables ty thd =
     (case flush_script thd of
        [] \<Rightarrow> (False, log (Flush_tables ty False) thd)
      | r # rs \<Rightarrow>
          (fst r,
           log (Flush_tables ty (fst r))
             (thd\<lparr>flush_script := rs, is_error := (is_error thd \<or> snd r)\<rparr>)))"

definition purge_tables :: "sys \<Rightarrow> sys" where
  "purge_tables thd = log Purge_tables thd"

definition has_read_only_protection :: "sys \<Rightarrow> bool \<times> sys" where
  "has_read_only_protection thd =
     (if read_only_protection thd then (True, my_error ER_READ_ONLY_PROTECTION thd)
      else (False, thd))"

section \<open>The stage handlers\<close>

text \<open>
  The wait loop of \<open>backup_start\<close>:
  \<open>while (backup_running && !thd->killed) mysql_cond_wait(&COND_backup, &LOCK_backup)\<close>.
  \<open>Inl\<close>: the session waits and is never woken.
\<close>

function wait_for_backup :: "sys \<Rightarrow> unit outcome" where
  "wait_for_backup thd =
     (if backup_running thd \<and> \<not> killed thd then
        (case wakeups thd of
           [] \<Rightarrow> Inl (Blocked, thd)
         | w # ws \<Rightarrow>
             wait_for_backup
               (log Cond_wait (thd\<lparr>backup_running := fst w, killed := snd w, wakeups := ws\<rparr>)))
      else Inr ((), thd))"
  by pat_completeness auto
termination
  by (relation "measure (\<lambda>thd. length (wakeups thd))") (auto simp: log_def)

declare wait_for_backup.simps [simp del]

definition backup_start :: "sys \<Rightarrow> bool outcome" where
  "backup_start thd0 =
     (let thd1 = set_stage BACKUP_FINISHED (log (Dbug_enter ''backup_start'') thd0);
          (ro, thd2) = has_read_only_protection thd1 in
      if ro then Inr (True, thd2)
      else
        (let thd3 = set_stage BACKUP_START thd2 in
         if locked_tables_mode thd3 then
           Inr (True, my_error ER_LOCK_OR_ACTIVE_TRANSACTION thd3)
         else
           (case wait_for_backup (log Enter_cond (log Mutex_lock thd3)) of
              Inl f \<Rightarrow> Inl f
            | Inr (u, thd4) \<Rightarrow>
                if killed thd4 then Inr (True, log Exit_cond (log Cond_signal thd4))
                else
                  Inr (False,
                    log Ha_prepare_for_backup
                      (log Exit_cond
                        (log (Set_running True) (thd4\<lparr>backup_running := True\<rparr>)))))))"

definition backup_flush :: "sys \<Rightarrow> bool outcome" where
  "backup_flush thd0 =
     (let (failed, ticket, thd1) =
            acquire_lock MDL_BACKUP_FLUSH (log (Dbug_enter ''backup_flush'') thd0) in
      if failed then Inr (True, thd1)
      else Inr (False, purge_tables (thd1\<lparr>backup_flush_ticket := ticket\<rparr>)))"

definition backup_block_ddl :: "sys \<Rightarrow> bool outcome" where
  "backup_block_ddl thd0 =
     (let thd = log (Dbug_enter ''backup_block_ddl'') thd0 in
      case upgrade_shared_lock (backup_flush_ticket thd) MDL_BACKUP_WAIT_FLUSH thd of
        Inl f \<Rightarrow> Inl f
      | Inr (failed1, thd1) \<Rightarrow>
          if failed1 then Inr (True, thd1)
          else
            (let (failed2, thd2) = flush_tables FLUSH_NON_TRANS_TABLES thd1 in
             if failed2 then Inr (is_error thd2, thd2)
             else
               (case upgrade_shared_lock (backup_flush_ticket thd2) MDL_BACKUP_WAIT_DDL thd2 of
                  Inl f \<Rightarrow> Inl f
                | Inr (failed3, thd3) \<Rightarrow>
                    if failed3 then Inr (True, thd3) else Inr (False, thd3))))"

definition backup_block_commit :: "sys \<Rightarrow> bool outcome" where
  "backup_block_commit thd0 =
     (let thd = log (Dbug_enter ''backup_block_commit'') thd0 in
      case upgrade_shared_lock (backup_flush_ticket thd) MDL_BACKUP_WAIT_COMMIT thd of
        Inl f \<Rightarrow> Inl f
      | Inr (failed, thd1) \<Rightarrow>
          if failed then Inr (True, thd1)
          else Inr (False, snd (flush_tables FLUSH_SYS_TABLES thd1)))"

definition backup_end :: "sys \<Rightarrow> bool \<times> sys" where
  "backup_end thd0 =
     (let thd = log (Dbug_enter ''backup_end'') thd0 in
      if current_backup_stage thd \<noteq> BACKUP_FINISHED then
        (let thd1 = set_stage BACKUP_FINISHED thd;
             thd2 =
               (case backup_flush_ticket thd1 of
                  None \<Rightarrow> thd1
                | Some t \<Rightarrow> (release_lock t thd1)\<lparr>backup_flush_ticket := None\<rparr>);
             thd3 = log Mutex_lock (log Ha_end_backup thd2);
             thd4 = log (Set_running False) (thd3\<lparr>backup_running := False\<rparr>)
         in (False, log Mutex_unlock (log Cond_signal thd4)))
      else (False, thd))"

section \<open>run_backup_stage\<close>

text \<open>The \<open>switch (next_stage)\<close> of the loop body, which leaves the handler's result in \<open>res\<close>.\<close>

fun run_stage_handler :: "backup_stages \<Rightarrow> sys \<Rightarrow> bool outcome" where
  "run_stage_handler BACKUP_START thd =
     (case backup_start thd of
        Inl f \<Rightarrow> Inl f
      | Inr (res, thd1) \<Rightarrow>
          if \<not> res then Inr (res, thd1)
          else Inr (res, set_stage BACKUP_FINISHED thd1))"
| "run_stage_handler BACKUP_FLUSH thd = backup_flush thd"
| "run_stage_handler BACKUP_WAIT_FOR_FLUSH thd = backup_block_ddl thd"
| "run_stage_handler BACKUP_LOCK_COMMIT thd = backup_block_commit thd"
| "run_stage_handler BACKUP_END thd = Inr (backup_end thd)"
| "run_stage_handler BACKUP_FINISHED thd = Inr (False, log Dbug_assert_0 thd)"

lemma stage_succ_uint: "stage_succ a = Some b \<Longrightarrow> stage_uint b = Suc (stage_uint a)"
  by (cases a) auto

lemma stage_uint_le_5: "stage_uint a \<le> 5"
  by (cases a) auto

text \<open>
  The \<open>do ... while ((uint) next_stage <= (uint) stage)\<close> loop, entered with \<open>next_stage\<close>.
  After \<open>BACKUP_FINISHED\<close> the next value is 6, above every stage: the loop ends.
\<close>

function backup_stage_loop :: "backup_stages \<Rightarrow> backup_stages \<Rightarrow> sys \<Rightarrow> bool outcome" where
  "backup_stage_loop stage next_stage thd =
     (case run_stage_handler next_stage (set_stage next_stage thd) of
        Inl f \<Rightarrow> Inl f
      | Inr (res, thd1) \<Rightarrow>
          if res then Inr (True, my_error (ER_BACKUP_STAGE_FAILED (stage_names stage)) thd1)
          else
            (case stage_succ next_stage of
               None \<Rightarrow> Inr (False, thd1)
             | Some n \<Rightarrow>
                 if stage_uint n \<le> stage_uint stage then backup_stage_loop stage n thd1
                 else Inr (False, thd1)))"
  by pat_completeness auto
termination
proof (relation "measure (\<lambda>(stage, next_stage, thd). 6 - stage_uint next_stage)")
  show "wf (measure (\<lambda>(stage, next_stage, thd). 6 - stage_uint next_stage))"
    by simp
next
  fix stage next_stage :: backup_stages and thd :: sys and n :: backup_stages
  assume "stage_succ next_stage = Some n"
  then have "stage_uint n = Suc (stage_uint next_stage)"
    by (rule stage_succ_uint)
  moreover have "stage_uint n \<le> 5"
    by (rule stage_uint_le_5)
  ultimately
  show "((stage, n, thd1), (stage, next_stage, thd))
          \<in> measure (\<lambda>(stage, next_stage, thd). 6 - stage_uint next_stage)" for thd1
    by simp
qed

declare backup_stage_loop.simps [simp del]

text \<open>
  \<open>run_backup_stage(thd, stage)\<close>. In the last branch \<open>current_backup_stage\<close> is not
  \<open>BACKUP_FINISHED\<close>, so the stage after it is an enumerator.
\<close>

definition run_backup_stage :: "backup_stages \<Rightarrow> sys \<Rightarrow> bool outcome" where
  "run_backup_stage stage thd0 =
     (let thd = log (Dbug_enter ''run_backup_stage'') thd0 in
      if current_backup_stage thd = BACKUP_FINISHED then
        (if stage \<noteq> BACKUP_START then Inr (True, my_error ER_BACKUP_NOT_RUNNING thd)
         else backup_stage_loop stage BACKUP_START thd)
      else if stage_uint (current_backup_stage thd) \<ge> stage_uint stage then
        Inr (True,
          my_error
            (ER_BACKUP_WRONG_STAGE (stage_names stage) (stage_names (current_backup_stage thd)))
            thd)
      else if stage = BACKUP_END then backup_stage_loop stage stage thd
      else
        (case stage_succ (current_backup_stage thd) of
           None \<Rightarrow> Inl (Bad_stage, thd)
         | Some n \<Rightarrow> backup_stage_loop stage n thd))"

section \<open>The alter-copy lock\<close>

text \<open>\<open>backup_set_alter_copy_lock\<close> and \<open>backup_reset_alter_copy_lock\<close>.\<close>

definition backup_set_alter_copy_lock :: "sys \<Rightarrow> unit outcome" where
  "backup_set_alter_copy_lock thd =
     (case mdl_backup_ticket thd of
        None \<Rightarrow> Inr ((), thd)
      | Some ticket \<Rightarrow> downgrade_lock ticket MDL_BACKUP_ALTER_COPY thd)"

definition backup_reset_alter_copy_lock :: "sys \<Rightarrow> bool outcome" where
  "backup_reset_alter_copy_lock thd =
     (case mdl_backup_ticket thd of
        None \<Rightarrow> Inr (False, thd)
      | Some ticket \<Rightarrow> upgrade_shared_lock (Some ticket) MDL_BACKUP_DDL thd)"

section \<open>Observing a call\<close>

text \<open>The state a call ends in, whether it returns or stops.\<close>

definition state_of :: "'a outcome \<Rightarrow> sys" where
  "state_of r = (case r of Inl (f, thd) \<Rightarrow> thd | Inr (res, thd) \<Rightarrow> thd)"

text \<open>The events a call has added to the trace of the state it started in.\<close>

definition new_events :: "sys \<Rightarrow> sys \<Rightarrow> event list" where
  "new_events thd thd' = drop (length (trace thd)) (trace thd')"

text \<open>The errors raised, the values assigned to the stage, and the releases, of a trace.\<close>

fun errors_of :: "event list \<Rightarrow> my_err list" where
  "errors_of [] = []"
| "errors_of (My_error x # tr) = x # errors_of tr"
| "errors_of (e # tr) = errors_of tr"

fun stage_writes :: "event list \<Rightarrow> backup_stages list" where
  "stage_writes [] = []"
| "stage_writes (Set_stage s # tr) = s # stage_writes tr"
| "stage_writes (e # tr) = stage_writes tr"

fun releases :: "event list \<Rightarrow> nat list" where
  "releases [] = []"
| "releases (Release_lock t # tr) = t # releases tr"
| "releases (e # tr) = releases tr"

fun running_writes :: "event list \<Rightarrow> bool list" where
  "running_writes [] = []"
| "running_writes (Set_running b # tr) = b # running_writes tr"
| "running_writes (e # tr) = running_writes tr"

text \<open>The handlers entered, by the name each gives to \<open>DBUG_ENTER\<close>.\<close>

fun handlers_entered :: "event list \<Rightarrow> string list" where
  "handlers_entered [] = []"
| "handlers_entered (Dbug_enter n # tr) =
     (if n = ''run_backup_stage'' then handlers_entered tr else n # handlers_entered tr)"
| "handlers_entered (e # tr) = handlers_entered tr"

text \<open>Every name an error carries is one of the five names of \<open>stage_names\<close>.\<close>

fun names_valid :: "my_err \<Rightarrow> bool" where
  "names_valid (ER_BACKUP_WRONG_STAGE a b) = (a \<noteq> None \<and> b \<noteq> None)"
| "names_valid (ER_BACKUP_STAGE_FAILED a) = (a \<noteq> None)"
| "names_valid e = True"

text \<open>
  The errors with which \<open>run_backup_stage\<close> refuses a request, and the errors raised once a
  request is accepted: those of the handlers, and \<open>ER_BACKUP_STAGE_FAILED\<close> with a name.
\<close>

fun refusal :: "my_err \<Rightarrow> bool" where
  "refusal ER_BACKUP_NOT_RUNNING = True"
| "refusal (ER_BACKUP_WRONG_STAGE a b) = True"
| "refusal e = False"

fun inner_error :: "my_err \<Rightarrow> bool" where
  "inner_error ER_BACKUP_NOT_RUNNING = False"
| "inner_error (ER_BACKUP_WRONG_STAGE a b) = False"
| "inner_error (ER_BACKUP_STAGE_FAILED a) = (a \<noteq> None)"
| "inner_error e = True"

text \<open>
  Events that assign neither the stage nor \<open>backup_running\<close>, raise no error, release no
  ticket and are not the failed assertion.
\<close>

fun quiet :: "event \<Rightarrow> bool" where
  "quiet (Set_stage s) = False"
| "quiet (My_error e) = False"
| "quiet Dbug_assert_0 = False"
| "quiet (Set_running b) = False"
| "quiet (Release_lock t) = False"
| "quiet e = True"

text \<open>
  A sequence of values of the stage in which every step either does not go down the ladder or
  goes to \<open>BACKUP_FINISHED\<close>; the latter is allowed only when \<open>reset\<close> says so.
\<close>

fun steps_ok :: "bool \<Rightarrow> backup_stages list \<Rightarrow> bool" where
  "steps_ok reset (a # b # xs) =
     ((if b = BACKUP_FINISHED then reset else ladder a \<le> ladder b) \<and> steps_ok reset (b # xs))"
| "steps_ok reset xs = True"

text \<open>
  \<open>succeeded_before f next_stage thd = Some thd1\<close>: the iterations of the loop for the stages
  from \<open>next_stage\<close> up to, but not including, \<open>f\<close> have run in turn from \<open>thd\<close>, each handler
  has returned success, and they have left \<open>thd1\<close>.
\<close>

function succeeded_before :: "backup_stages \<Rightarrow> backup_stages \<Rightarrow> sys \<Rightarrow> sys option" where
  "succeeded_before f next_stage thd =
     (if next_stage = f then Some thd
      else
        (case run_stage_handler next_stage (set_stage next_stage thd) of
           Inl s \<Rightarrow> None
         | Inr (res, thd1) \<Rightarrow>
             if res then None
             else
               (case stage_succ next_stage of
                  None \<Rightarrow> None
                | Some n \<Rightarrow> succeeded_before f n thd1)))"
  by pat_completeness auto
termination
proof (relation "measure (\<lambda>(f, next_stage, thd). 6 - stage_uint next_stage)")
  show "wf (measure (\<lambda>(f, next_stage, thd). 6 - stage_uint next_stage))"
    by simp
next
  fix f next_stage :: backup_stages and thd :: sys and n :: backup_stages
  assume "stage_succ next_stage = Some n"
  then have "stage_uint n = Suc (stage_uint next_stage)"
    by (rule stage_succ_uint)
  moreover have "stage_uint n \<le> 5"
    by (rule stage_uint_le_5)
  ultimately
  show "((f, n, thd1), (f, next_stage, thd))
          \<in> measure (\<lambda>(f, next_stage, thd). 6 - stage_uint next_stage)" for thd1
    by simp
qed

declare succeeded_before.simps [simp del]

text \<open>
  The stage \<open>run_backup_stage\<close> enters its loop with; \<open>None\<close> when it refuses the request.
\<close>

definition first_stage :: "backup_stages \<Rightarrow> sys \<Rightarrow> backup_stages option" where
  "first_stage stage thd =
     (if current_backup_stage thd = BACKUP_FINISHED then
        (if stage \<noteq> BACKUP_START then None else Some BACKUP_START)
      else if stage_uint (current_backup_stage thd) \<ge> stage_uint stage then None
      else if stage = BACKUP_END then Some stage
      else stage_succ (current_backup_stage thd))"

text \<open>A session that issues the given stage requests in turn, each of which returns.\<close>

fun requests :: "backup_stages list \<Rightarrow> sys \<Rightarrow> sys option" where
  "requests [] thd = Some thd"
| "requests (stage # stages) thd =
     (case run_backup_stage stage thd of
        Inl f \<Rightarrow> None
      | Inr (res, thd1) \<Rightarrow> requests stages thd1)"

text \<open>
  The sessions that have run START, and START and FLUSH, with success (lemmas
  \<open>thd_started_reached\<close> and \<open>thd_flushed_reached\<close>, for any answers still to come from the
  lock manager and the table cache), their traces emptied.
\<close>

definition thd_started :: sys where
  "thd_started = thd_init\<lparr>current_backup_stage := BACKUP_START, backup_running := True\<rparr>"

definition thd_flushed :: sys where
  "thd_flushed =
     thd_init\<lparr>current_backup_stage := BACKUP_FLUSH, backup_running := True,
       backup_flush_ticket := Some 1, tickets := [1 \<mapsto> MDL_BACKUP_FLUSH], next_ticket := 2\<rparr>"

text \<open>
  A session in ALTER TABLE that holds, in \<open>mdl_backup_ticket\<close>, a ticket of type
  \<open>MDL_BACKUP_DDL\<close>.
\<close>

definition thd_altering :: sys where
  "thd_altering = thd_init\<lparr>mdl_backup_ticket := Some 7, tickets := [7 \<mapsto> MDL_BACKUP_DDL]\<rparr>"

text \<open>
  The same with the ticket of type \<open>MDL_BACKUP_DML\<close>, which the comment of
  \<open>backup_set_alter_copy_lock\<close> says it may be ("in some case when using non transactional
  tables, the lock may be of type MDL_BACKUP_DML").
\<close>

definition thd_altering_dml :: sys where
  "thd_altering_dml =
     thd_init\<lparr>mdl_backup_ticket := Some 7, tickets := [7 \<mapsto> MDL_BACKUP_DML]\<rparr>"



text \<open>\<open>backup_set_alter_copy_lock\<close> followed by \<open>backup_reset_alter_copy_lock\<close>.\<close>

definition alter_copy_round_trip :: "sys \<Rightarrow> bool outcome" where
  "alter_copy_round_trip thd =
     (case backup_set_alter_copy_lock thd of
        Inl f \<Rightarrow> Inl f
      | Inr (u, thd1) \<Rightarrow> backup_reset_alter_copy_lock thd1)"

section \<open>Unfolding the model\<close>

lemmas step_defs = log_def set_stage_def my_error_def

lemmas collaborator_defs =
  lock_outcome_def acquire_lock_def upgrade_shared_lock_def downgrade_lock_def
  release_lock_def flush_tables_def purge_tables_def has_read_only_protection_def

lemmas handler_defs =
  backup_start_def backup_flush_def backup_block_ddl_def backup_block_commit_def
  backup_end_def

lemmas run_defs =
  run_backup_stage_def backup_stage_loop.simps wait_for_backup.simps

section \<open>What the handlers do to the trace and the stage\<close>

lemma errors_of_append [simp]: "errors_of (xs @ ys) = errors_of xs @ errors_of ys"
  by (induction xs rule: errors_of.induct) auto

lemma stage_writes_append [simp]: "stage_writes (xs @ ys) = stage_writes xs @ stage_writes ys"
  by (induction xs rule: stage_writes.induct) auto

lemma running_writes_append [simp]:
  "running_writes (xs @ ys) = running_writes xs @ running_writes ys"
  by (induction xs rule: running_writes.induct) auto

lemma releases_append [simp]: "releases (xs @ ys) = releases xs @ releases ys"
  by (induction xs rule: releases.induct) auto

lemma quiet_observed:
  "list_all quiet evs \<Longrightarrow>
     errors_of evs = [] \<and> stage_writes evs = [] \<and> running_writes evs = []
     \<and> releases evs = [] \<and> Dbug_assert_0 \<notin> set evs"
proof (induction evs)
  case Nil
  then show ?case by simp
next
  case (Cons e evs)
  then show ?case by (cases e) auto
qed


lemma wait_for_backup_summary:
  "\<exists>evs. trace (state_of (wait_for_backup thd)) = trace thd @ evs \<and> list_all quiet evs
     \<and> current_backup_stage (state_of (wait_for_backup thd)) = current_backup_stage thd
     \<and> backup_running (state_of (wait_for_backup thd))
         \<in> set (backup_running thd # map fst (wakeups thd))"
proof (induction thd rule: wait_for_backup.induct)
  case (1 thd)
  show ?case
  proof (cases "backup_running thd \<and> \<not> killed thd")
    case False
    then have "wait_for_backup thd = Inr ((), thd)"
      by (subst wait_for_backup.simps) auto
    then show ?thesis
      by (simp add: state_of_def)
  next
    case waiting: True
    show ?thesis
    proof (cases "wakeups thd")
      case Nil
      with waiting have "wait_for_backup thd = Inl (Blocked, thd)"
        by (subst wait_for_backup.simps) simp
      then show ?thesis
        by (simp add: state_of_def)
    next
      case (Cons w ws)
      let ?woken = "log Cond_wait (thd\<lparr>backup_running := fst w, killed := snd w, wakeups := ws\<rparr>)"
      from waiting Cons have again: "wait_for_backup thd = wait_for_backup ?woken"
        by (subst wait_for_backup.simps) simp
      from "1.IH" [OF waiting Cons] obtain evs where
        tr: "trace (state_of (wait_for_backup ?woken)) = trace ?woken @ evs"
        and q: "list_all quiet evs"
        and st: "current_backup_stage (state_of (wait_for_backup ?woken)) =
                   current_backup_stage ?woken"
        and run: "backup_running (state_of (wait_for_backup ?woken))
                   \<in> set (backup_running ?woken # map fst (wakeups ?woken))"
        by blast
      have "trace (state_of (wait_for_backup thd)) = trace thd @ Cond_wait # evs"
        using tr by (simp add: again log_def)
      moreover have "list_all quiet (Cond_wait # evs)"
        using q by simp
      moreover have "current_backup_stage (state_of (wait_for_backup thd)) =
          current_backup_stage thd"
        using st by (simp add: again log_def)
      moreover have "backup_running (state_of (wait_for_backup thd))
          \<in> set (backup_running thd # map fst (wakeups thd))"
        using run Cons by (auto simp add: again log_def)
      ultimately show ?thesis
        by blast
    qed
  qed
qed

lemma upgrade_shared_lock_summary:
  "\<exists>evs. trace (state_of (upgrade_shared_lock ticket ty thd)) = trace thd @ evs
     \<and> list_all quiet evs
     \<and> current_backup_stage (state_of (upgrade_shared_lock ticket ty thd)) =
         current_backup_stage thd"
  by (auto simp add: upgrade_shared_lock_def lock_outcome_def log_def state_of_def Let_def
      split: option.split list.split)

lemma backup_flush_summary:
  "\<exists>evs. trace (state_of (backup_flush thd)) = trace thd @ evs \<and> list_all quiet evs
     \<and> current_backup_stage (state_of (backup_flush thd)) = current_backup_stage thd"
  by (auto simp add: backup_flush_def collaborator_defs log_def state_of_def Let_def
      split: option.split list.split)

lemma backup_block_ddl_summary:
  "\<exists>evs. trace (state_of (backup_block_ddl thd)) = trace thd @ evs \<and> list_all quiet evs
     \<and> current_backup_stage (state_of (backup_block_ddl thd)) = current_backup_stage thd"
  by (auto simp add: backup_block_ddl_def collaborator_defs log_def state_of_def Let_def
      split: option.split list.split)

lemma backup_block_commit_summary:
  "\<exists>evs. trace (state_of (backup_block_commit thd)) = trace thd @ evs \<and> list_all quiet evs
     \<and> current_backup_stage (state_of (backup_block_commit thd)) = current_backup_stage thd"
  by (auto simp add: backup_block_commit_def collaborator_defs log_def state_of_def Let_def
      split: option.split list.split)


lemma backup_start_summary:
  "\<exists>evs. trace (state_of (backup_start thd)) =
            trace thd @ Dbug_enter ''backup_start'' # Set_stage BACKUP_FINISHED # evs
     \<and> Dbug_assert_0 \<notin> set evs \<and> list_all inner_error (errors_of evs) \<and> releases evs = []
     \<and> stage_writes evs = (if read_only_protection thd then [] else [BACKUP_START])
     \<and> current_backup_stage (state_of (backup_start thd)) =
         (if read_only_protection thd then BACKUP_FINISHED else BACKUP_START)
     \<and> (read_only_protection thd \<longrightarrow> backup_start thd = Inr (True, state_of (backup_start thd)))"
proof (cases "read_only_protection thd")
  case True
  then show ?thesis
    by (simp add: backup_start_def has_read_only_protection_def step_defs state_of_def)
next
  case ro: False
  show ?thesis
  proof (cases "locked_tables_mode thd")
    case True
    with ro show ?thesis
      by (simp add: backup_start_def has_read_only_protection_def step_defs state_of_def)
  next
    case locked: False
    let ?waiting =
      "log Enter_cond (log Mutex_lock
         (set_stage BACKUP_START
           (set_stage BACKUP_FINISHED (log (Dbug_enter ''backup_start'') thd))))"
    obtain evs where
      tr: "trace (state_of (wait_for_backup ?waiting)) = trace ?waiting @ evs"
      and q: "list_all quiet evs"
      and st: "current_backup_stage (state_of (wait_for_backup ?waiting)) =
                 current_backup_stage ?waiting"
      using wait_for_backup_summary [of ?waiting] by blast
    note obs = quiet_observed [OF q]
    show ?thesis
    proof (cases "wait_for_backup ?waiting")
      case (Inl stopped)
      with ro locked tr st obs show ?thesis
        by (cases stopped)
          (simp add: backup_start_def has_read_only_protection_def step_defs state_of_def)
    next
      case (Inr woken)
      with ro locked tr st obs show ?thesis
        by (cases woken)
          (simp add: backup_start_def has_read_only_protection_def step_defs state_of_def)
    qed
  qed
qed


lemma handler_summary:
  assumes "next_stage \<noteq> BACKUP_FINISHED"
  shows "\<exists>evs. trace (state_of (run_stage_handler next_stage (set_stage next_stage thd))) =
            trace thd @ Set_stage next_stage # evs
     \<and> Dbug_assert_0 \<notin> set evs \<and> list_all inner_error (errors_of evs)
     \<and> set (stage_writes evs) \<subseteq> {BACKUP_FINISHED, next_stage}
     \<and> current_backup_stage (state_of (run_stage_handler next_stage (set_stage next_stage thd))) =
         last (next_stage # stage_writes evs)
     \<and> current_backup_stage (state_of (run_stage_handler next_stage (set_stage next_stage thd)))
         \<noteq> BACKUP_END
     \<and> (next_stage \<noteq> BACKUP_START \<and> next_stage \<noteq> BACKUP_END \<longrightarrow>
         current_backup_stage (state_of (run_stage_handler next_stage (set_stage next_stage thd))) =
           next_stage)"
proof (cases next_stage)
  case BACKUP_START
  let ?t = "set_stage BACKUP_START thd"
  obtain evs where
    tr: "trace (state_of (backup_start ?t)) =
           trace ?t @ Dbug_enter ''backup_start'' # Set_stage BACKUP_FINISHED # evs"
    and ok: "Dbug_assert_0 \<notin> set evs" "list_all inner_error (errors_of evs)"
    and ws: "stage_writes evs = (if read_only_protection ?t then [] else [BACKUP_START])"
    and st: "current_backup_stage (state_of (backup_start ?t)) =
               (if read_only_protection ?t then BACKUP_FINISHED else BACKUP_START)"
    and ro: "read_only_protection ?t \<longrightarrow> backup_start ?t = Inr (True, state_of (backup_start ?t))"
    using backup_start_summary [of ?t] by blast
  show ?thesis
  proof (cases "backup_start ?t")
    case (Inl stopped)
    with ro have "\<not> read_only_protection ?t"
      by auto
    with Inl tr ok ws st BACKUP_START show ?thesis
      by (cases stopped) (simp add: state_of_def step_defs)
  next
    case (Inr returned)
    obtain res t1 where r: "returned = (res, t1)"
      by (cases returned)
    show ?thesis
    proof (cases res)
      case True
      with Inr r tr ok ws st BACKUP_START show ?thesis
        by (simp add: state_of_def step_defs)
    next
      case False
      with Inr r ro have "\<not> read_only_protection ?t"
        by auto
      with False Inr r tr ok ws st BACKUP_START show ?thesis
        by (simp add: state_of_def step_defs)
    qed
  qed
next
  case BACKUP_FLUSH
  obtain evs where
    "trace (state_of (backup_flush (set_stage BACKUP_FLUSH thd))) =
       trace (set_stage BACKUP_FLUSH thd) @ evs"
    "list_all quiet evs"
    "current_backup_stage (state_of (backup_flush (set_stage BACKUP_FLUSH thd))) =
       current_backup_stage (set_stage BACKUP_FLUSH thd)"
    using backup_flush_summary [of "set_stage BACKUP_FLUSH thd"] by blast
  with BACKUP_FLUSH quiet_observed [of evs] show ?thesis
    by (simp add: step_defs)
next
  case BACKUP_WAIT_FOR_FLUSH
  obtain evs where
    "trace (state_of (backup_block_ddl (set_stage BACKUP_WAIT_FOR_FLUSH thd))) =
       trace (set_stage BACKUP_WAIT_FOR_FLUSH thd) @ evs"
    "list_all quiet evs"
    "current_backup_stage (state_of (backup_block_ddl (set_stage BACKUP_WAIT_FOR_FLUSH thd))) =
       current_backup_stage (set_stage BACKUP_WAIT_FOR_FLUSH thd)"
    using backup_block_ddl_summary [of "set_stage BACKUP_WAIT_FOR_FLUSH thd"] by blast
  with BACKUP_WAIT_FOR_FLUSH quiet_observed [of evs] show ?thesis
    by (simp add: step_defs)
next
  case BACKUP_LOCK_COMMIT
  obtain evs where
    "trace (state_of (backup_block_commit (set_stage BACKUP_LOCK_COMMIT thd))) =
       trace (set_stage BACKUP_LOCK_COMMIT thd) @ evs"
    "list_all quiet evs"
    "current_backup_stage (state_of (backup_block_commit (set_stage BACKUP_LOCK_COMMIT thd))) =
       current_backup_stage (set_stage BACKUP_LOCK_COMMIT thd)"
    using backup_block_commit_summary [of "set_stage BACKUP_LOCK_COMMIT thd"] by blast
  with BACKUP_LOCK_COMMIT quiet_observed [of evs] show ?thesis
    by (simp add: step_defs)
next
  case BACKUP_END
  let ?evs = "Dbug_enter ''backup_end'' # Set_stage BACKUP_FINISHED
      # (case backup_flush_ticket thd of None \<Rightarrow> [] | Some t \<Rightarrow> [Release_lock t])
      @ [Ha_end_backup, Mutex_lock, Set_running False, Cond_signal, Mutex_unlock]"
  have "trace (state_of (run_stage_handler BACKUP_END (set_stage BACKUP_END thd))) =
      trace thd @ Set_stage BACKUP_END # ?evs"
    and "current_backup_stage (state_of (run_stage_handler BACKUP_END (set_stage BACKUP_END thd)))
      = BACKUP_FINISHED"
    by (simp_all add: backup_end_def step_defs release_lock_def state_of_def Let_def
        split: option.split)
  moreover have "Dbug_assert_0 \<notin> set ?evs" "list_all inner_error (errors_of ?evs)"
    "stage_writes ?evs = [BACKUP_FINISHED]"
    by (simp_all split: option.split)
  ultimately show ?thesis
    unfolding BACKUP_END
    by (intro exI [of _ ?evs]) simp
next
  case BACKUP_FINISHED
  with assms show ?thesis
    by simp
qed

lemma steps_ok_append:
  "xs \<noteq> [] \<Longrightarrow> steps_ok r (xs @ ys) = (steps_ok r xs \<and> steps_ok r (last xs # ys))"
proof (induction xs)
  case Nil
  then show ?case by simp
next
  case (Cons a xs)
  show ?case
  proof (cases xs)
    case Nil
    then show ?thesis by simp
  next
    case (Cons b zs)
    with Cons.IH show ?thesis by simp
  qed
qed

lemma steps_ok_two_values:
  "set ws \<subseteq> {BACKUP_FINISHED, x} \<Longrightarrow> a = BACKUP_FINISHED \<or> a = x \<Longrightarrow> steps_ok True (a # ws)"
proof (induction ws arbitrary: a)
  case Nil
  then show ?case by simp
next
  case (Cons b ws)
  then show ?case by auto
qed

lemma last_two_values:
  "set ws \<subseteq> {BACKUP_FINISHED, x} \<Longrightarrow> last (x # ws) = BACKUP_FINISHED \<or> last (x # ws) = x"
  by (induction ws) auto

lemma steps_ok_iteration:
  assumes "set ws \<subseteq> {BACKUP_FINISHED, x}" and "ladder c \<le> ladder x"
  shows "steps_ok True (c # x # ws)"
  using assms steps_ok_two_values [of ws x x] by simp

lemma stage_succ_ladder:
  "stage_succ a = Some b \<Longrightarrow> b \<noteq> BACKUP_FINISHED \<Longrightarrow> ladder b = Suc (ladder a)"
  by (cases a) auto

lemma stage_names_valid: "stage \<noteq> BACKUP_FINISHED \<Longrightarrow> stage_names stage \<noteq> None"
  by (cases stage) auto

lemma inner_errors_observed:
  "list_all inner_error es \<Longrightarrow> list_all names_valid es \<and> \<not> list_ex refusal es"
proof (induction es)
  case Nil
  then show ?case by simp
next
  case (Cons e es)
  then show ?case by (cases e) auto
qed

lemma stage_below_END:
  "a \<noteq> BACKUP_FINISHED \<Longrightarrow> a \<noteq> BACKUP_END \<Longrightarrow> stage_uint a < 4"
  by (cases a) auto

lemma run_backup_stage_END:
  assumes "current_backup_stage thd \<noteq> BACKUP_FINISHED"
    and "current_backup_stage thd \<noteq> BACKUP_END"
  shows "run_backup_stage BACKUP_END thd =
           Inr (backup_end (set_stage BACKUP_END (log (Dbug_enter ''run_backup_stage'') thd)))"
proof -
  have "stage_uint (current_backup_stage thd) < 4"
    using assms by (rule stage_below_END)
  then show ?thesis
    using assms
    by (simp add: run_backup_stage_def backup_stage_loop.simps step_defs backup_end_def
        Let_def split: option.split)
qed

lemma ladder_uint:
  "a \<noteq> BACKUP_FINISHED \<Longrightarrow> b \<noteq> BACKUP_FINISHED \<Longrightarrow>
     (ladder a \<le> ladder b) = (stage_uint a \<le> stage_uint b)"
  by (cases a; cases b) auto

lemma thd_flushed_reached:
  "map_option (\<lambda>thd. thd\<lparr>trace := []\<rparr>)
     (requests [BACKUP_START, BACKUP_FLUSH]
        (thd_init\<lparr>lock_script := False # ls, flush_script := fs\<rparr>)) =
   Some (thd_flushed\<lparr>lock_script := ls, flush_script := fs\<rparr>)"
  by (simp add: thd_flushed_def run_defs handler_defs collaborator_defs step_defs thd_init_def)

section \<open>The loop over the stages\<close>

lemma stage_uint_bounds:
  "stage \<noteq> BACKUP_FINISHED \<Longrightarrow> stage_uint a \<le> stage_uint stage \<Longrightarrow> a \<noteq> BACKUP_FINISHED"
  "stage \<noteq> BACKUP_FINISHED \<Longrightarrow> stage \<noteq> BACKUP_END \<Longrightarrow> stage_uint a \<le> stage_uint stage \<Longrightarrow>
     a \<noteq> BACKUP_END"
  by (cases stage; cases a; simp)+

lemma stage_succ_not_START: "stage_succ a = Some b \<Longrightarrow> b \<noteq> BACKUP_START"
  by (cases a) auto

lemma loop_summary:
  assumes "stage \<noteq> BACKUP_FINISHED" and "stage_uint next_stage \<le> stage_uint stage"
  shows "\<exists>evs. trace (state_of (backup_stage_loop stage next_stage thd)) = trace thd @ evs
     \<and> Dbug_assert_0 \<notin> set evs \<and> list_all inner_error (errors_of evs)
     \<and> (\<forall>c. ladder c \<le> ladder next_stage \<longrightarrow> steps_ok True (c # stage_writes evs))
     \<and> current_backup_stage (state_of (backup_stage_loop stage next_stage thd)) \<noteq> BACKUP_END
     \<and> (next_stage \<noteq> BACKUP_START \<and> stage \<noteq> BACKUP_END \<longrightarrow>
          stage_uint next_stage
            \<le> stage_uint (current_backup_stage (state_of (backup_stage_loop stage next_stage thd)))
          \<and> stage_uint (current_backup_stage (state_of (backup_stage_loop stage next_stage thd)))
            \<le> stage_uint stage)"
  using assms
proof (induction stage next_stage thd rule: backup_stage_loop.induct)
  case (1 stage next_stage thd)
  let ?r = "run_stage_handler next_stage (set_stage next_stage thd)"
  let ?loop = "backup_stage_loop stage next_stage thd"
  from "1.prems" have nf: "next_stage \<noteq> BACKUP_FINISHED"
    by (rule stage_uint_bounds)
  obtain evs1 where
    tr1: "trace (state_of ?r) = trace thd @ Set_stage next_stage # evs1"
    and clean1: "Dbug_assert_0 \<notin> set evs1" "list_all inner_error (errors_of evs1)"
    and ws1: "set (stage_writes evs1) \<subseteq> {BACKUP_FINISHED, next_stage}"
    and cur1: "current_backup_stage (state_of ?r) = last (next_stage # stage_writes evs1)"
    and notend1: "current_backup_stage (state_of ?r) \<noteq> BACKUP_END"
    and keep1: "next_stage \<noteq> BACKUP_START \<and> next_stage \<noteq> BACKUP_END \<longrightarrow>
                  current_backup_stage (state_of ?r) = next_stage"
    using handler_summary [OF nf, of thd] by blast
  have chain1: "steps_ok True (c # next_stage # stage_writes evs1)"
    if "ladder c \<le> ladder next_stage" for c
    using ws1 that by (rule steps_ok_iteration)
  have inside: "stage_uint next_stage \<le> stage_uint (current_backup_stage (state_of ?r))
      \<and> stage_uint (current_backup_stage (state_of ?r)) \<le> stage_uint stage"
    if "next_stage \<noteq> BACKUP_START \<and> stage \<noteq> BACKUP_END"
  proof -
    from that "1.prems" have "next_stage \<noteq> BACKUP_END"
      by (simp add: stage_uint_bounds)
    with that keep1 have "current_backup_stage (state_of ?r) = next_stage"
      by simp
    with "1.prems" show ?thesis
      by simp
  qed
  have stops_here: ?case
    if same: "state_of ?loop = state_of ?r"
  proof -
    have "trace (state_of ?loop) = trace thd @ (Set_stage next_stage # evs1)"
      using tr1 same by simp
    moreover have "Dbug_assert_0 \<notin> set (Set_stage next_stage # evs1)"
      using clean1 by simp
    moreover have "list_all inner_error (errors_of (Set_stage next_stage # evs1))"
      using clean1 by simp
    moreover have "\<forall>c. ladder c \<le> ladder next_stage \<longrightarrow>
        steps_ok True (c # stage_writes (Set_stage next_stage # evs1))"
      using chain1 by simp
    moreover have "current_backup_stage (state_of ?loop) \<noteq> BACKUP_END"
      using notend1 same by simp
    moreover have "next_stage \<noteq> BACKUP_START \<and> stage \<noteq> BACKUP_END \<longrightarrow>
        stage_uint next_stage \<le> stage_uint (current_backup_stage (state_of ?loop))
        \<and> stage_uint (current_backup_stage (state_of ?loop)) \<le> stage_uint stage"
      using inside same by simp
    ultimately show ?thesis
      by blast
  qed
  show ?case
  proof (cases ?r)
    case (Inl stopped)
    then have "?loop = Inl stopped"
      by (subst backup_stage_loop.simps) simp
    with Inl have "state_of ?loop = state_of ?r"
      by simp
    then show ?thesis
      by (rule stops_here)
  next
    case (Inr returned)
    obtain res thd1 where returned: "returned = (res, thd1)"
      by (cases returned)
    from Inr returned have st1: "state_of ?r = thd1"
      by (simp add: state_of_def)
    show ?thesis
    proof (cases res)
      case True
      let ?e = "My_error (ER_BACKUP_STAGE_FAILED (stage_names stage))"
      from True Inr returned
      have loop: "?loop = Inr (True, my_error (ER_BACKUP_STAGE_FAILED (stage_names stage)) thd1)"
        by (subst backup_stage_loop.simps) simp
      have "trace (state_of ?loop) = trace thd @ (Set_stage next_stage # evs1 @ [?e])"
        using tr1 st1 by (simp add: loop state_of_def step_defs)
      moreover have "Dbug_assert_0 \<notin> set (Set_stage next_stage # evs1 @ [?e])"
        using clean1 by simp
      moreover have "list_all inner_error (errors_of (Set_stage next_stage # evs1 @ [?e]))"
        using clean1 stage_names_valid [OF "1.prems"(1)] by simp
      moreover have "\<forall>c. ladder c \<le> ladder next_stage \<longrightarrow>
          steps_ok True (c # stage_writes (Set_stage next_stage # evs1 @ [?e]))"
        using chain1 by simp
      moreover have cur: "current_backup_stage (state_of ?loop) =
          current_backup_stage (state_of ?r)"
        using st1 by (simp add: loop state_of_def step_defs)
      moreover have "current_backup_stage (state_of ?loop) \<noteq> BACKUP_END"
        using notend1 cur by simp
      moreover have "next_stage \<noteq> BACKUP_START \<and> stage \<noteq> BACKUP_END \<longrightarrow>
          stage_uint next_stage \<le> stage_uint (current_backup_stage (state_of ?loop))
          \<and> stage_uint (current_backup_stage (state_of ?loop)) \<le> stage_uint stage"
        using inside cur by simp
      ultimately show ?thesis
        by blast
    next
      case False
      show ?thesis
      proof (cases "stage_succ next_stage")
        case None
        with False Inr returned have "?loop = Inr (False, thd1)"
          by (subst backup_stage_loop.simps) simp
        with st1 have "state_of ?loop = state_of ?r"
          by (simp add: state_of_def)
        then show ?thesis
          by (rule stops_here)
      next
        case (Some n)
        show ?thesis
        proof (cases "stage_uint n \<le> stage_uint stage")
          case outside: False
          with Some False Inr returned have "?loop = Inr (False, thd1)"
            by (subst backup_stage_loop.simps) simp
          with st1 have "state_of ?loop = state_of ?r"
            by (simp add: state_of_def)
          then show ?thesis
            by (rule stops_here)
        next
          case True
          let ?rest = "backup_stage_loop stage n thd1"
          from True Some False Inr returned have loop: "?loop = ?rest"
            by (subst backup_stage_loop.simps) simp
          have res': "\<not> res"
            using False .
          obtain evs2 where
            tr2: "trace (state_of ?rest) = trace thd1 @ evs2"
            and clean2: "Dbug_assert_0 \<notin> set evs2" "list_all inner_error (errors_of evs2)"
            and chain2: "\<forall>c. ladder c \<le> ladder n \<longrightarrow> steps_ok True (c # stage_writes evs2)"
            and notend2: "current_backup_stage (state_of ?rest) \<noteq> BACKUP_END"
            and inside2: "n \<noteq> BACKUP_START \<and> stage \<noteq> BACKUP_END \<longrightarrow>
                stage_uint n \<le> stage_uint (current_backup_stage (state_of ?rest))
                \<and> stage_uint (current_backup_stage (state_of ?rest)) \<le> stage_uint stage"
            using "1.IH" [OF Inr returned [symmetric] res' Some True "1.prems"(1) True]
            by blast
          have n_fin: "n \<noteq> BACKUP_FINISHED"
            using "1.prems"(1) True by (rule stage_uint_bounds)
          have up: "ladder n = Suc (ladder next_stage)"
            using Some n_fin by (rule stage_succ_ladder)
          let ?evs = "Set_stage next_stage # evs1 @ evs2"
          have "trace (state_of ?loop) = trace thd @ ?evs"
            using tr1 tr2 st1 by (simp add: loop)
          moreover have "Dbug_assert_0 \<notin> set ?evs"
            using clean1 clean2 by simp
          moreover have "list_all inner_error (errors_of ?evs)"
            using clean1 clean2 by simp
          moreover have "steps_ok True (c # stage_writes ?evs)"
            if c: "ladder c \<le> ladder next_stage" for c
          proof -
            have "last (next_stage # stage_writes evs1) = BACKUP_FINISHED
                \<or> last (next_stage # stage_writes evs1) = next_stage"
              using ws1 by (rule last_two_values)
            then have "ladder (last (next_stage # stage_writes evs1)) \<le> ladder n"
              using up by auto
            with chain2
            have "steps_ok True (last (next_stage # stage_writes evs1) # stage_writes evs2)"
              by blast
            moreover have "last (c # next_stage # stage_writes evs1) =
                last (next_stage # stage_writes evs1)"
              by simp
            ultimately have "steps_ok True ((c # next_stage # stage_writes evs1) @ stage_writes evs2)"
              using chain1 [OF c] steps_ok_append [of "c # next_stage # stage_writes evs1" True
                  "stage_writes evs2"]
              by simp
            then show ?thesis
              by simp
          qed
          moreover have "current_backup_stage (state_of ?loop) \<noteq> BACKUP_END"
            using notend2 by (simp add: loop)
          moreover have "next_stage \<noteq> BACKUP_START \<and> stage \<noteq> BACKUP_END \<longrightarrow>
              stage_uint next_stage \<le> stage_uint (current_backup_stage (state_of ?loop))
              \<and> stage_uint (current_backup_stage (state_of ?loop)) \<le> stage_uint stage"
            using inside2 stage_succ_not_START [OF Some] stage_succ_uint [OF Some]
            by (auto simp add: loop)
          ultimately show ?thesis
            by blast
        qed
      qed
    qed
  qed
qed


lemma handler_not_END:
  "current_backup_stage (state_of (run_stage_handler next_stage (set_stage next_stage thd)))
     \<noteq> BACKUP_END"
proof (cases "next_stage = BACKUP_FINISHED")
  case True
  then show ?thesis
    by (simp add: state_of_def step_defs)
next
  case False
  from handler_summary [OF False, of thd] show ?thesis
    by blast
qed

lemma loop_not_END:
  "current_backup_stage (state_of (backup_stage_loop stage next_stage thd)) \<noteq> BACKUP_END"
proof (induction stage next_stage thd rule: backup_stage_loop.induct)
  case (1 stage next_stage thd)
  let ?r = "run_stage_handler next_stage (set_stage next_stage thd)"
  let ?loop = "backup_stage_loop stage next_stage thd"
  have h: "current_backup_stage (state_of ?r) \<noteq> BACKUP_END"
    by (rule handler_not_END)
  show ?case
  proof (cases ?r)
    case (Inl stopped)
    then have "?loop = Inl stopped"
      by (subst backup_stage_loop.simps) simp
    with Inl h show ?thesis
      by simp
  next
    case (Inr returned)
    obtain res thd1 where returned: "returned = (res, thd1)"
      by (cases returned)
    from Inr returned h have h1: "current_backup_stage thd1 \<noteq> BACKUP_END"
      by (simp add: state_of_def)
    show ?thesis
    proof (cases "\<not> res \<and> (\<exists>n. stage_succ next_stage = Some n \<and> stage_uint n \<le> stage_uint stage)")
      case True
      then obtain n where n: "stage_succ next_stage = Some n" "stage_uint n \<le> stage_uint stage"
        and res: "\<not> res"
        by blast
      with Inr returned have "?loop = backup_stage_loop stage n thd1"
        by (subst backup_stage_loop.simps) simp
      with "1.IH" [OF Inr returned [symmetric] res n] show ?thesis
        by simp
    next
      case False
      with Inr returned have "current_backup_stage (state_of ?loop) = current_backup_stage thd1"
        by (subst backup_stage_loop.simps)
          (auto simp add: state_of_def step_defs split: option.split)
      with h1 show ?thesis
        by simp
    qed
  qed
qed

lemma stage_never_rests_at_END:
  assumes "current_backup_stage thd \<noteq> BACKUP_END"
  shows "current_backup_stage (state_of (run_backup_stage stage thd)) \<noteq> BACKUP_END"
    and "current_backup_stage (snd (backup_end thd)) \<noteq> BACKUP_END"
    and "current_backup_stage (state_of (backup_set_alter_copy_lock thd)) \<noteq> BACKUP_END"
    and "current_backup_stage (state_of (backup_reset_alter_copy_lock thd)) \<noteq> BACKUP_END"
proof -
  show "current_backup_stage (state_of (run_backup_stage stage thd)) \<noteq> BACKUP_END"
    using assms loop_not_END
    by (simp add: run_backup_stage_def Let_def state_of_def step_defs split: option.split)
  show "current_backup_stage (snd (backup_end thd)) \<noteq> BACKUP_END"
    using assms
    by (simp add: backup_end_def Let_def step_defs release_lock_def split: option.split)
  show "current_backup_stage (state_of (backup_set_alter_copy_lock thd)) \<noteq> BACKUP_END"
    using assms
    by (simp add: backup_set_alter_copy_lock_def downgrade_lock_def state_of_def log_def
        split: option.split)
  show "current_backup_stage (state_of (backup_reset_alter_copy_lock thd)) \<noteq> BACKUP_END"
  proof (cases "mdl_backup_ticket thd")
    case None
    with assms show ?thesis
      by (simp add: backup_reset_alter_copy_lock_def state_of_def)
  next
    case (Some t)
    with assms upgrade_shared_lock_summary [of "Some t" MDL_BACKUP_DDL thd] show ?thesis
      by (auto simp add: backup_reset_alter_copy_lock_def)
  qed
qed

lemma new_events_append: "trace thd' = trace thd @ evs \<Longrightarrow> new_events thd thd' = evs"
  by (simp add: new_events_def)

lemma start_iteration:
  "current_backup_stage (state_of (run_stage_handler BACKUP_START thd)) =
     (if run_stage_handler BACKUP_START thd =
           Inr (True, state_of (run_stage_handler BACKUP_START thd))
      then BACKUP_FINISHED else BACKUP_START)"
proof -
  obtain evs where
    st: "current_backup_stage (state_of (backup_start thd)) =
           (if read_only_protection thd then BACKUP_FINISHED else BACKUP_START)"
    and ro: "read_only_protection thd \<longrightarrow> backup_start thd = Inr (True, state_of (backup_start thd))"
    using backup_start_summary [of thd] by blast
  show ?thesis
  proof (cases "backup_start thd")
    case (Inl stopped)
    with st ro show ?thesis
      by (cases stopped) (auto simp add: state_of_def)
  next
    case (Inr returned)
    with st ro show ?thesis
      by (cases returned) (auto simp add: state_of_def step_defs)
  qed
qed

lemma stage_succ_Some: "a \<noteq> BACKUP_FINISHED \<Longrightarrow> \<exists>n. stage_succ a = Some n"
  by (cases a) auto

lemma run_summary:
  assumes named: "stage \<noteq> BACKUP_FINISHED"
  shows "\<exists>evs. trace (state_of (run_backup_stage stage thd)) = trace thd @ evs
     \<and> Dbug_assert_0 \<notin> set evs \<and> list_all names_valid (errors_of evs)
     \<and> steps_ok True (current_backup_stage thd # stage_writes evs)
     \<and> (current_backup_stage thd \<noteq> BACKUP_FINISHED \<and> stage \<noteq> BACKUP_END \<longrightarrow>
          ladder (current_backup_stage thd)
            \<le> ladder (current_backup_stage (state_of (run_backup_stage stage thd))))
     \<and> (first_stage stage thd \<noteq> None \<longrightarrow> \<not> list_ex refusal (errors_of evs))"
proof -
  let ?enter = "Dbug_enter ''run_backup_stage''"
  let ?thd0 = "log ?enter thd"
  let ?cur = "current_backup_stage thd"
  let ?run = "run_backup_stage stage thd"
  have thd0: "trace ?thd0 = trace thd @ [?enter]" "current_backup_stage ?thd0 = ?cur"
    by (simp_all add: log_def)
  have through_loop: ?thesis
    if run: "?run = backup_stage_loop stage n ?thd0"
      and n: "stage_uint n \<le> stage_uint stage" "ladder ?cur \<le> ladder n"
      and up: "?cur \<noteq> BACKUP_FINISHED \<and> stage \<noteq> BACKUP_END \<longrightarrow>
                 n \<noteq> BACKUP_START \<and> stage_uint ?cur \<le> stage_uint n"
    for n
  proof -
    let ?loop = "backup_stage_loop stage n ?thd0"
    obtain evs where
      tr: "trace (state_of ?loop) = trace ?thd0 @ evs"
      and clean: "Dbug_assert_0 \<notin> set evs" "list_all inner_error (errors_of evs)"
      and chain: "\<forall>c. ladder c \<le> ladder n \<longrightarrow> steps_ok True (c # stage_writes evs)"
      and inside: "n \<noteq> BACKUP_START \<and> stage \<noteq> BACKUP_END \<longrightarrow>
          stage_uint n \<le> stage_uint (current_backup_stage (state_of ?loop))
          \<and> stage_uint (current_backup_stage (state_of ?loop)) \<le> stage_uint stage"
      using loop_summary [OF named n(1), of ?thd0] by blast
    have "trace (state_of ?run) = trace thd @ (?enter # evs)"
      using tr thd0 by (simp add: run)
    moreover have "Dbug_assert_0 \<notin> set (?enter # evs)"
      using clean by simp
    moreover have "list_all names_valid (errors_of (?enter # evs))"
      "\<not> list_ex refusal (errors_of (?enter # evs))"
      using inner_errors_observed [OF clean(2)] by simp_all
    moreover have "steps_ok True (?cur # stage_writes (?enter # evs))"
      using chain n(2) by simp
    moreover have "ladder ?cur \<le> ladder (current_backup_stage (state_of ?run))"
      if running: "?cur \<noteq> BACKUP_FINISHED \<and> stage \<noteq> BACKUP_END"
    proof -
      let ?c1 = "current_backup_stage (state_of ?loop)"
      from running up inside have b: "stage_uint ?cur \<le> stage_uint ?c1"
        "stage_uint ?c1 \<le> stage_uint stage"
        by auto
      from named b(2) have "?c1 \<noteq> BACKUP_FINISHED"
        by (rule stage_uint_bounds)
      with running b(1) show ?thesis
        by (simp add: run ladder_uint)
    qed
    ultimately show ?thesis
      by blast
  qed
  have rejected: ?thesis
    if run: "?run = Inr (True, my_error e ?thd0)" and e: "names_valid e"
      and refused: "first_stage stage thd = None" for e
  proof -
    have "trace (state_of ?run) = trace thd @ [?enter, My_error e]"
      by (simp add: run state_of_def step_defs)
    moreover have "current_backup_stage (state_of ?run) = ?cur"
      by (simp add: run state_of_def step_defs)
    moreover have "Dbug_assert_0 \<notin> set [?enter, My_error e]"
      "list_all names_valid (errors_of [?enter, My_error e])"
      "steps_ok True (?cur # stage_writes [?enter, My_error e])"
      using e by simp_all
    ultimately show ?thesis
      using refused by (intro exI [of _ "[?enter, My_error e]"]) simp
  qed
  show ?thesis
  proof (cases "?cur = BACKUP_FINISHED")
    case fin: True
    show ?thesis
    proof (cases "stage = BACKUP_START")
      case True
      with fin have "?run = backup_stage_loop stage BACKUP_START ?thd0"
        by (simp add: run_backup_stage_def log_def)
      moreover have "stage_uint BACKUP_START \<le> stage_uint stage"
        "ladder ?cur \<le> ladder BACKUP_START"
        using fin by simp_all
      ultimately show ?thesis
        using fin by (intro through_loop [of BACKUP_START]) simp_all
    next
      case False
      with fin have "?run = Inr (True, my_error ER_BACKUP_NOT_RUNNING ?thd0)"
        and "first_stage stage thd = None"
        by (simp_all add: run_backup_stage_def first_stage_def log_def)
      then show ?thesis
        using rejected [of ER_BACKUP_NOT_RUNNING] by simp
    qed
  next
    case running: False
    show ?thesis
    proof (cases "stage_uint stage \<le> stage_uint ?cur")
      case True
      with running have "?run = Inr (True,
          my_error (ER_BACKUP_WRONG_STAGE (stage_names stage) (stage_names ?cur)) ?thd0)"
        by (simp add: run_backup_stage_def log_def)
      moreover have "names_valid (ER_BACKUP_WRONG_STAGE (stage_names stage) (stage_names ?cur))"
        using stage_names_valid [OF named] stage_names_valid [OF running] by auto
      moreover have "first_stage stage thd = None"
        using running True by (simp add: first_stage_def)
      ultimately show ?thesis
        by (rule rejected)
    next
      case above: False
      show ?thesis
      proof (cases "stage = BACKUP_END")
        case True
        with running above have "?run = backup_stage_loop stage BACKUP_END ?thd0"
          by (simp add: run_backup_stage_def log_def)
        moreover have "ladder ?cur \<le> ladder BACKUP_END"
          by (cases ?cur) simp_all
        ultimately show ?thesis
          using True by (intro through_loop [of BACKUP_END]) simp_all
      next
        case False
        from running obtain n where n: "stage_succ ?cur = Some n"
          using stage_succ_Some by blast
        with running above False have run: "?run = backup_stage_loop stage n ?thd0"
          by (simp add: run_backup_stage_def log_def)
        have un: "stage_uint n = Suc (stage_uint ?cur)"
          using n by (rule stage_succ_uint)
        with above have le: "stage_uint n \<le> stage_uint stage"
          by simp
        with named have "n \<noteq> BACKUP_FINISHED"
          by (rule stage_uint_bounds)
        with n have "ladder n = Suc (ladder ?cur)"
          by (rule stage_succ_ladder)
        with run le un stage_succ_not_START [OF n] show ?thesis
          by (intro through_loop [of n]) simp_all
      qed
    qed
  qed
qed


lemma ladder_zero: "(ladder a = 0) = (a = BACKUP_FINISHED)"
  by (cases a) auto

lemma start_request:
  assumes "current_backup_stage thd = BACKUP_FINISHED"
  shows "(current_backup_stage (state_of (run_backup_stage BACKUP_START thd)) = BACKUP_FINISHED)
       = (run_backup_stage BACKUP_START thd =
            Inr (True, state_of (run_backup_stage BACKUP_START thd)))"
proof -
  let ?t = "set_stage BACKUP_START (log (Dbug_enter ''run_backup_stage'') thd)"
  let ?r = "run_stage_handler BACKUP_START ?t"
  have run: "run_backup_stage BACKUP_START thd = backup_stage_loop BACKUP_START BACKUP_START
      (log (Dbug_enter ''run_backup_stage'') thd)"
    using assms by (simp add: run_backup_stage_def log_def)
  have it: "current_backup_stage (state_of ?r) =
      (if ?r = Inr (True, state_of ?r) then BACKUP_FINISHED else BACKUP_START)"
    by (rule start_iteration)
  show ?thesis
  proof (cases ?r)
    case (Inl stopped)
    then have "run_backup_stage BACKUP_START thd = Inl stopped"
      unfolding run by (subst backup_stage_loop.simps) simp
    with it Inl show ?thesis
      by simp
  next
    case (Inr returned)
    obtain res thd1 where returned: "returned = (res, thd1)"
      by (cases returned)
    show ?thesis
    proof (cases res)
      case True
      with Inr returned have "run_backup_stage BACKUP_START thd =
          Inr (True, my_error (ER_BACKUP_STAGE_FAILED (stage_names BACKUP_START)) thd1)"
        unfolding run by (subst backup_stage_loop.simps) simp
      with it Inr returned True show ?thesis
        by (simp add: state_of_def step_defs)
    next
      case False
      with Inr returned have "run_backup_stage BACKUP_START thd = Inr (False, thd1)"
        unfolding run by (subst backup_stage_loop.simps) simp
      with it Inr returned False show ?thesis
        by (simp add: state_of_def)
    qed
  qed
qed

lemma run_enters_loop:
  "first_stage stage thd = Some n \<Longrightarrow>
     run_backup_stage stage thd =
       backup_stage_loop stage n (log (Dbug_enter ''run_backup_stage'') thd)"
  by (auto simp add: first_stage_def run_backup_stage_def log_def split: if_splits)

lemma accepted_first_stage:
  assumes "(current_backup_stage thd = BACKUP_FINISHED \<and> stage = BACKUP_START)
     \<or> (current_backup_stage thd \<noteq> BACKUP_FINISHED \<and> stage \<noteq> BACKUP_FINISHED
          \<and> ladder (current_backup_stage thd) < ladder stage)"
  shows "first_stage stage thd \<noteq> None"
  using assms
  by (cases "current_backup_stage thd"; cases stage) (simp_all add: first_stage_def)

lemma succeeded_before_self: "succeeded_before f f thd = Some thd"
  by (subst succeeded_before.simps) simp

lemma loop_failure:
  assumes "backup_stage_loop stage next_stage thd = Inr (True, thd')"
  shows "\<exists>f thd1 thd2. succeeded_before f next_stage thd = Some thd1
      \<and> run_stage_handler f (set_stage f thd1) = Inr (True, thd2)
      \<and> thd' = my_error (ER_BACKUP_STAGE_FAILED (stage_names stage)) thd2
      \<and> stage_uint next_stage \<le> stage_uint f"
  using assms
proof (induction stage next_stage thd rule: backup_stage_loop.induct)
  case (1 stage next_stage thd)
  let ?r = "run_stage_handler next_stage (set_stage next_stage thd)"
  show ?case
  proof (cases ?r)
    case (Inl stopped)
    then have "backup_stage_loop stage next_stage thd = Inl stopped"
      by (subst backup_stage_loop.simps) simp
    with "1.prems" show ?thesis
      by simp
  next
    case (Inr returned)
    obtain res thd1 where returned: "returned = (res, thd1)"
      by (cases returned)
    show ?thesis
    proof (cases res)
      case True
      with Inr returned have "backup_stage_loop stage next_stage thd =
          Inr (True, my_error (ER_BACKUP_STAGE_FAILED (stage_names stage)) thd1)"
        by (subst backup_stage_loop.simps) simp
      with "1.prems" have "thd' = my_error (ER_BACKUP_STAGE_FAILED (stage_names stage)) thd1"
        by simp
      with Inr returned True succeeded_before_self [of next_stage thd] show ?thesis
        by fastforce
    next
      case False
      from False Inr returned "1.prems" obtain n where
        n: "stage_succ next_stage = Some n" "stage_uint n \<le> stage_uint stage"
        and rest: "backup_stage_loop stage n thd1 = Inr (True, thd')"
        by (subst (asm) backup_stage_loop.simps) (auto split: option.splits if_splits)
      have res': "\<not> res"
        using False .
      from "1.IH" [OF Inr returned [symmetric] res' n rest] obtain f t1 t2 where
        f: "succeeded_before f n thd1 = Some t1"
          "run_stage_handler f (set_stage f t1) = Inr (True, t2)"
          "thd' = my_error (ER_BACKUP_STAGE_FAILED (stage_names stage)) t2"
          "stage_uint n \<le> stage_uint f"
        by blast
      from n(1) have "stage_uint n = Suc (stage_uint next_stage)"
        by (rule stage_succ_uint)
      with f(4) have lt: "stage_uint next_stage < stage_uint f"
        by simp
      then have "next_stage \<noteq> f"
        by auto
      with Inr returned False n(1) f(1) have "succeeded_before f next_stage thd = Some t1"
        by (subst succeeded_before.simps) simp
      with f lt show ?thesis
        by (intro exI [of _ f] exI [of _ t1] exI [of _ t2]) simp
    qed
  qed
qed

lemma failing_handler_stage:
  assumes "run_stage_handler f (set_stage f thd) = Inr (True, thd')"
  shows "f \<noteq> BACKUP_END \<and> f \<noteq> BACKUP_FINISHED
     \<and> current_backup_stage thd' = (if f = BACKUP_START then BACKUP_FINISHED else f)"
proof -
  have st: "state_of (run_stage_handler f (set_stage f thd)) = thd'"
    using assms by (simp add: state_of_def)
  show ?thesis
  proof (cases f)
    case BACKUP_START
    with assms st start_iteration [of "set_stage BACKUP_START thd"] show ?thesis
      by simp
  next
    case BACKUP_END
    with assms show ?thesis
      by (simp add: backup_end_def Let_def split: if_splits)
  next
    case BACKUP_FINISHED
    with assms show ?thesis
      by simp
  next
    case BACKUP_FLUSH
    with st handler_summary [of f thd] show ?thesis
      by auto
  next
    case BACKUP_WAIT_FOR_FLUSH
    with st handler_summary [of f thd] show ?thesis
      by auto
  next
    case BACKUP_LOCK_COMMIT
    with st handler_summary [of f thd] show ?thesis
      by auto
  qed
qed

lemma thd_started_reached:
  "map_option (\<lambda>thd. thd\<lparr>trace := []\<rparr>)
     (requests [BACKUP_START] (thd_init\<lparr>lock_script := ls, flush_script := fs\<rparr>)) =
   Some (thd_started\<lparr>lock_script := ls, flush_script := fs\<rparr>)"
  by (simp add: thd_started_def run_defs handler_defs collaborator_defs step_defs thd_init_def)

lemma handler_extends:
  "\<exists>evs. trace (state_of (run_stage_handler next_stage (set_stage next_stage thd))) =
           trace thd @ evs
     \<and> (next_stage = BACKUP_FINISHED \<longrightarrow> Dbug_assert_0 \<in> set evs)"
proof (cases "next_stage = BACKUP_FINISHED")
  case True
  then show ?thesis
    by (simp add: state_of_def step_defs)
next
  case False
  from handler_summary [OF False, of thd] show ?thesis
    by (metis False)
qed

lemma loop_requested_FINISHED:
  "\<exists>evs. trace (state_of (backup_stage_loop BACKUP_FINISHED next_stage thd)) = trace thd @ evs
     \<and> (backup_stage_loop BACKUP_FINISHED next_stage thd =
            Inr (False, state_of (backup_stage_loop BACKUP_FINISHED next_stage thd)) \<longrightarrow>
          Dbug_assert_0 \<in> set evs)
     \<and> (backup_stage_loop BACKUP_FINISHED next_stage thd =
            Inr (True, state_of (backup_stage_loop BACKUP_FINISHED next_stage thd)) \<longrightarrow>
          ER_BACKUP_STAGE_FAILED (stage_names BACKUP_FINISHED) \<in> set (errors_of evs))"
proof (induction "BACKUP_FINISHED" next_stage thd rule: backup_stage_loop.induct)
  case (1 next_stage thd)
  let ?r = "run_stage_handler next_stage (set_stage next_stage thd)"
  let ?loop = "backup_stage_loop BACKUP_FINISHED next_stage thd"
  obtain evs1 where
    tr1: "trace (state_of ?r) = trace thd @ evs1"
    and fin1: "next_stage = BACKUP_FINISHED \<longrightarrow> Dbug_assert_0 \<in> set evs1"
    using handler_extends [of next_stage thd] by blast
  show ?case
  proof (cases ?r)
    case (Inl stopped)
    then have "?loop = Inl stopped"
      by (subst backup_stage_loop.simps) simp
    with Inl tr1 show ?thesis
      by simp
  next
    case (Inr returned)
    obtain res thd1 where returned: "returned = (res, thd1)"
      by (cases returned)
    from Inr returned have st1: "state_of ?r = thd1"
      by (simp add: state_of_def)
    show ?thesis
    proof (cases res)
      case True
      let ?e = "My_error (ER_BACKUP_STAGE_FAILED (stage_names BACKUP_FINISHED))"
      from True Inr returned
      have loop: "?loop =
          Inr (True, my_error (ER_BACKUP_STAGE_FAILED (stage_names BACKUP_FINISHED)) thd1)"
        by (subst backup_stage_loop.simps) simp
      have "trace (state_of ?loop) = trace thd @ (evs1 @ [?e])"
        using tr1 st1 by (simp add: loop state_of_def step_defs)
      moreover have "ER_BACKUP_STAGE_FAILED (stage_names BACKUP_FINISHED)
          \<in> set (errors_of (evs1 @ [?e]))"
        by simp
      moreover have "?loop \<noteq> Inr (False, state_of ?loop)"
        by (simp add: loop)
      ultimately show ?thesis
        by blast
    next
      case False
      show ?thesis
      proof (cases "stage_succ next_stage")
        case None
        then have "next_stage = BACKUP_FINISHED"
          by (cases next_stage) simp_all
        with fin1 have reached: "Dbug_assert_0 \<in> set evs1"
          by simp
        from None False Inr returned have loop: "?loop = Inr (False, thd1)"
          by (subst backup_stage_loop.simps) simp
        have "trace (state_of ?loop) = trace thd @ evs1"
          using tr1 st1 by (simp add: loop state_of_def)
        moreover have "?loop \<noteq> Inr (True, state_of ?loop)"
          by (simp add: loop)
        ultimately show ?thesis
          using reached by blast
      next
        case (Some n)
        let ?rest = "backup_stage_loop BACKUP_FINISHED n thd1"
        have le: "stage_uint n \<le> stage_uint BACKUP_FINISHED"
          using stage_uint_le_5 [of n] by simp
        with Some False Inr returned have loop: "?loop = ?rest"
          by (subst backup_stage_loop.simps) simp
        have res': "\<not> res"
          using False .
        obtain evs2 where
          tr2: "trace (state_of ?rest) = trace thd1 @ evs2"
          and ok2: "?rest = Inr (False, state_of ?rest) \<longrightarrow> Dbug_assert_0 \<in> set evs2"
          and bad2: "?rest = Inr (True, state_of ?rest) \<longrightarrow>
              ER_BACKUP_STAGE_FAILED (stage_names BACKUP_FINISHED) \<in> set (errors_of evs2)"
          using "1.hyps" [OF Inr returned [symmetric] res' Some le] by blast
        have "trace (state_of ?loop) = trace thd @ (evs1 @ evs2)"
          using tr1 tr2 st1 by (simp add: loop)
        moreover have "?loop = Inr (False, state_of ?loop) \<longrightarrow> Dbug_assert_0 \<in> set (evs1 @ evs2)"
          using ok2 by (simp add: loop)
        moreover have "?loop = Inr (True, state_of ?loop) \<longrightarrow>
            ER_BACKUP_STAGE_FAILED (stage_names BACKUP_FINISHED) \<in> set (errors_of (evs1 @ evs2))"
          using bad2 by (simp add: loop)
        ultimately show ?thesis
          by blast
      qed
    qed
  qed
qed

lemma run_requested_FINISHED:
  assumes running: "current_backup_stage thd \<noteq> BACKUP_FINISHED"
  shows "(run_backup_stage BACKUP_FINISHED thd =
            Inr (False, state_of (run_backup_stage BACKUP_FINISHED thd)) \<longrightarrow>
          Dbug_assert_0 \<in> set (new_events thd (state_of (run_backup_stage BACKUP_FINISHED thd))))
     \<and> (run_backup_stage BACKUP_FINISHED thd =
            Inr (True, state_of (run_backup_stage BACKUP_FINISHED thd)) \<longrightarrow>
          ER_BACKUP_STAGE_FAILED (stage_names BACKUP_FINISHED)
            \<in> set (errors_of
                     (new_events thd (state_of (run_backup_stage BACKUP_FINISHED thd)))))"
proof -
  let ?thd0 = "log (Dbug_enter ''run_backup_stage'') thd"
  from running obtain n where n: "stage_succ (current_backup_stage thd) = Some n"
    using stage_succ_Some by blast
  from running have "stage_uint (current_backup_stage thd) < 5"
    by (cases "current_backup_stage thd") simp_all
  with running n have run: "run_backup_stage BACKUP_FINISHED thd =
      backup_stage_loop BACKUP_FINISHED n ?thd0"
    by (simp add: run_backup_stage_def log_def)
  obtain evs where
    tr: "trace (state_of (backup_stage_loop BACKUP_FINISHED n ?thd0)) = trace ?thd0 @ evs"
    and ok: "backup_stage_loop BACKUP_FINISHED n ?thd0 =
        Inr (False, state_of (backup_stage_loop BACKUP_FINISHED n ?thd0)) \<longrightarrow>
        Dbug_assert_0 \<in> set evs"
    and bad: "backup_stage_loop BACKUP_FINISHED n ?thd0 =
        Inr (True, state_of (backup_stage_loop BACKUP_FINISHED n ?thd0)) \<longrightarrow>
        ER_BACKUP_STAGE_FAILED (stage_names BACKUP_FINISHED) \<in> set (errors_of evs)"
    using loop_requested_FINISHED [of n ?thd0] by blast
  have "trace (state_of (run_backup_stage BACKUP_FINISHED thd)) =
      trace thd @ (Dbug_enter ''run_backup_stage'' # evs)"
    using tr by (simp add: run log_def)
  then have "new_events thd (state_of (run_backup_stage BACKUP_FINISHED thd)) =
      Dbug_enter ''run_backup_stage'' # evs"
    by (rule new_events_append)
  with ok bad show ?thesis
    by (simp add: run)
qed

lemma handler_quiet:
  assumes "next_stage = BACKUP_FLUSH \<or> next_stage = BACKUP_WAIT_FOR_FLUSH
      \<or> next_stage = BACKUP_LOCK_COMMIT"
  shows "\<exists>evs. trace (state_of (run_stage_handler next_stage (set_stage next_stage thd))) =
            trace thd @ Set_stage next_stage # evs
     \<and> stage_writes evs = []"
proof -
  let ?t = "set_stage next_stage thd"
  have t: "trace ?t = trace thd @ [Set_stage next_stage]"
    by (simp add: step_defs)
  from assms consider "next_stage = BACKUP_FLUSH" | "next_stage = BACKUP_WAIT_FOR_FLUSH"
    | "next_stage = BACKUP_LOCK_COMMIT"
    by blast
  then show ?thesis
  proof cases
    case 1
    obtain evs where "trace (state_of (backup_flush ?t)) = trace ?t @ evs" "list_all quiet evs"
      using backup_flush_summary [of ?t] by blast
    with 1 t quiet_observed [of evs] show ?thesis
      by simp
  next
    case 2
    obtain evs where "trace (state_of (backup_block_ddl ?t)) = trace ?t @ evs" "list_all quiet evs"
      using backup_block_ddl_summary [of ?t] by blast
    with 2 t quiet_observed [of evs] show ?thesis
      by simp
  next
    case 3
    obtain evs where "trace (state_of (backup_block_commit ?t)) = trace ?t @ evs"
      "list_all quiet evs"
      using backup_block_commit_summary [of ?t] by blast
    with 3 t quiet_observed [of evs] show ?thesis
      by simp
  qed
qed

lemma stage_between:
  assumes "stage \<noteq> BACKUP_FINISHED" "stage \<noteq> BACKUP_END" "next_stage \<noteq> BACKUP_START"
    "stage_uint next_stage \<le> stage_uint stage"
  shows "next_stage = BACKUP_FLUSH \<or> next_stage = BACKUP_WAIT_FOR_FLUSH
      \<or> next_stage = BACKUP_LOCK_COMMIT"
  using assms by (cases stage; cases next_stage) simp_all

lemma loop_no_reset:
  assumes "stage \<noteq> BACKUP_FINISHED" and "stage \<noteq> BACKUP_END"
    and "next_stage \<noteq> BACKUP_START" and "stage_uint next_stage \<le> stage_uint stage"
  shows "\<exists>evs. trace (state_of (backup_stage_loop stage next_stage thd)) = trace thd @ evs
     \<and> (\<forall>c. ladder c \<le> ladder next_stage \<longrightarrow> steps_ok False (c # stage_writes evs))"
  using assms
proof (induction stage next_stage thd rule: backup_stage_loop.induct)
  case (1 stage next_stage thd)
  let ?r = "run_stage_handler next_stage (set_stage next_stage thd)"
  let ?loop = "backup_stage_loop stage next_stage thd"
  have mid: "next_stage = BACKUP_FLUSH \<or> next_stage = BACKUP_WAIT_FOR_FLUSH
      \<or> next_stage = BACKUP_LOCK_COMMIT"
    using "1.prems" by (rule stage_between)
  then have nf: "next_stage \<noteq> BACKUP_FINISHED"
    by auto
  obtain evs1 where
    tr1: "trace (state_of ?r) = trace thd @ Set_stage next_stage # evs1"
    and ws1: "stage_writes evs1 = []"
    using handler_quiet [OF mid, of thd] by blast
  have stops_here: ?case
    if same: "trace (state_of ?loop) = trace (state_of ?r) @ tl" and tl: "stage_writes tl = []"
    for tl
  proof -
    have "trace (state_of ?loop) = trace thd @ (Set_stage next_stage # evs1 @ tl)"
      using tr1 same by simp
    moreover have "\<forall>c. ladder c \<le> ladder next_stage \<longrightarrow>
        steps_ok False (c # stage_writes (Set_stage next_stage # evs1 @ tl))"
      using ws1 tl nf by simp
    ultimately show ?thesis
      by blast
  qed
  show ?case
  proof (cases ?r)
    case (Inl stopped)
    then have "?loop = Inl stopped"
      by (subst backup_stage_loop.simps) simp
    with Inl have "trace (state_of ?loop) = trace (state_of ?r) @ []"
      by simp
    then show ?thesis
      by (rule stops_here) simp
  next
    case (Inr returned)
    obtain res thd1 where returned: "returned = (res, thd1)"
      by (cases returned)
    from Inr returned have st1: "state_of ?r = thd1"
      by (simp add: state_of_def)
    show ?thesis
    proof (cases res)
      case True
      from True Inr returned
      have "?loop = Inr (True, my_error (ER_BACKUP_STAGE_FAILED (stage_names stage)) thd1)"
        by (subst backup_stage_loop.simps) simp
      with st1 have "trace (state_of ?loop) =
          trace (state_of ?r) @ [My_error (ER_BACKUP_STAGE_FAILED (stage_names stage))]"
        by (simp add: state_of_def step_defs)
      then show ?thesis
        by (rule stops_here) simp
    next
      case False
      show ?thesis
      proof (cases "\<exists>n. stage_succ next_stage = Some n \<and> stage_uint n \<le> stage_uint stage")
        case outside: False
        with False Inr returned have "?loop = Inr (False, thd1)"
          by (subst backup_stage_loop.simps) (auto split: option.split)
        with st1 have "trace (state_of ?loop) = trace (state_of ?r) @ []"
          by (simp add: state_of_def)
        then show ?thesis
          by (rule stops_here) simp
      next
        case True
        then obtain n where n: "stage_succ next_stage = Some n"
          "stage_uint n \<le> stage_uint stage"
          by blast
        let ?rest = "backup_stage_loop stage n thd1"
        from n False Inr returned have loop: "?loop = ?rest"
          by (subst backup_stage_loop.simps) simp
        have res': "\<not> res"
          using False .
        have n_start: "n \<noteq> BACKUP_START"
          using n(1) by (rule stage_succ_not_START)
        obtain evs2 where
          tr2: "trace (state_of ?rest) = trace thd1 @ evs2"
          and chain2: "\<forall>c. ladder c \<le> ladder n \<longrightarrow> steps_ok False (c # stage_writes evs2)"
          using "1.IH" [OF Inr returned [symmetric] res' n "1.prems"(1,2) n_start n(2)]
          by blast
        have n_fin: "n \<noteq> BACKUP_FINISHED"
          using "1.prems"(1) n(2) by (rule stage_uint_bounds)
        have up: "ladder n = Suc (ladder next_stage)"
          using n(1) n_fin by (rule stage_succ_ladder)
        have "trace (state_of ?loop) = trace thd @ (Set_stage next_stage # evs1 @ evs2)"
          using tr1 tr2 st1 by (simp add: loop)
        moreover have "\<forall>c. ladder c \<le> ladder next_stage \<longrightarrow>
            steps_ok False (c # stage_writes (Set_stage next_stage # evs1 @ evs2))"
          using chain2 up ws1 nf by simp
        ultimately show ?thesis
          by blast
      qed
    qed
  qed
qed

lemma start_request_writes:
  assumes fin: "current_backup_stage thd = BACKUP_FINISHED"
  shows "stage_writes (new_events thd (state_of (run_backup_stage BACKUP_START thd))) =
       [BACKUP_START, BACKUP_FINISHED]
       @ (if read_only_protection thd then [] else [BACKUP_START])
       @ (if run_backup_stage BACKUP_START thd =
               Inr (True, state_of (run_backup_stage BACKUP_START thd))
          then [BACKUP_FINISHED] else [])"
proof -
  let ?thd0 = "log (Dbug_enter ''run_backup_stage'') thd"
  let ?t = "set_stage BACKUP_START ?thd0"
  let ?run = "run_backup_stage BACKUP_START thd"
  have run: "?run = backup_stage_loop BACKUP_START BACKUP_START ?thd0"
    using fin by (simp add: run_backup_stage_def log_def)
  obtain evs where
    tr: "trace (state_of (backup_start ?t)) =
           trace ?t @ Dbug_enter ''backup_start'' # Set_stage BACKUP_FINISHED # evs"
    and ws: "stage_writes evs = (if read_only_protection ?t then [] else [BACKUP_START])"
    using backup_start_summary [of ?t] by blast
  have t: "trace ?t = trace thd @ [Dbug_enter ''run_backup_stage'', Set_stage BACKUP_START]"
    "read_only_protection ?t = read_only_protection thd"
    by (simp_all add: step_defs)
  have fromtrace: ?thesis
    if "trace (state_of ?run) = trace (state_of (backup_start ?t)) @ tl"
      and "stage_writes tl = (if ?run = Inr (True, state_of ?run) then [BACKUP_FINISHED] else [])"
    for tl
  proof -
    have "trace (state_of ?run) = trace thd @
        ([Dbug_enter ''run_backup_stage'', Set_stage BACKUP_START, Dbug_enter ''backup_start'',
          Set_stage BACKUP_FINISHED] @ evs @ tl)"
      using that(1) tr t(1) by simp
    then have "new_events thd (state_of ?run) =
        [Dbug_enter ''run_backup_stage'', Set_stage BACKUP_START, Dbug_enter ''backup_start'',
          Set_stage BACKUP_FINISHED] @ evs @ tl"
      by (rule new_events_append)
    with ws t(2) that(2) show ?thesis
      by simp
  qed
  show ?thesis
  proof (cases "backup_start ?t")
    case (Inl stopped)
    then have "?run = Inl stopped"
      unfolding run by (subst backup_stage_loop.simps) simp
    with Inl have "trace (state_of ?run) = trace (state_of (backup_start ?t)) @ []"
      and "?run \<noteq> Inr (True, state_of ?run)"
      by simp_all
    then show ?thesis
      by (intro fromtrace [of "[]"]) simp_all
  next
    case (Inr returned)
    obtain res thd1 where returned: "returned = (res, thd1)"
      by (cases returned)
    show ?thesis
    proof (cases res)
      case True
      with Inr returned have r: "?run =
          Inr (True, my_error (ER_BACKUP_STAGE_FAILED (stage_names BACKUP_START))
                 (set_stage BACKUP_FINISHED thd1))"
        unfolding run by (subst backup_stage_loop.simps) simp
      with Inr returned have "trace (state_of ?run) = trace (state_of (backup_start ?t))
          @ [Set_stage BACKUP_FINISHED, My_error (ER_BACKUP_STAGE_FAILED (stage_names BACKUP_START))]"
        and "?run = Inr (True, state_of ?run)"
        by (simp_all add: state_of_def step_defs)
      then show ?thesis
        by (intro fromtrace
            [of "[Set_stage BACKUP_FINISHED,
                  My_error (ER_BACKUP_STAGE_FAILED (stage_names BACKUP_START))]"]) simp_all
    next
      case False
      with Inr returned have "?run = Inr (False, thd1)"
        unfolding run by (subst backup_stage_loop.simps) simp
      with Inr returned have "trace (state_of ?run) = trace (state_of (backup_start ?t)) @ []"
        and "?run \<noteq> Inr (True, state_of ?run)"
        by (simp_all add: state_of_def)
      then show ?thesis
        by (intro fromtrace [of "[]"]) simp_all
    qed
  qed
qed

lemma refused_writes:
  assumes "first_stage stage thd = None" and "stage \<noteq> BACKUP_FINISHED"
  shows "stage_writes (new_events thd (state_of (run_backup_stage stage thd))) = []"
proof -
  have "current_backup_stage thd \<noteq> BACKUP_FINISHED \<Longrightarrow>
      stage_succ (current_backup_stage thd) \<noteq> None"
    by (cases "current_backup_stage thd") simp_all
  with assms show ?thesis
    by (auto simp add: first_stage_def run_backup_stage_def state_of_def new_events_def step_defs
        split: if_splits)
qed

lemma running_request_writes:
  assumes named: "stage \<noteq> BACKUP_FINISHED" and not_end: "stage \<noteq> BACKUP_END"
    and running: "current_backup_stage thd \<noteq> BACKUP_FINISHED"
  shows "steps_ok False
      (current_backup_stage thd
         # stage_writes (new_events thd (state_of (run_backup_stage stage thd))))"
proof (cases "first_stage stage thd")
  case None
  with named show ?thesis
    by (simp add: refused_writes)
next
  case (Some n)
  let ?thd0 = "log (Dbug_enter ''run_backup_stage'') thd"
  from Some running not_end have n: "stage_succ (current_backup_stage thd) = Some n"
    and above: "stage_uint (current_backup_stage thd) < stage_uint stage"
    by (auto simp add: first_stage_def split: if_splits)
  have un: "stage_uint n = Suc (stage_uint (current_backup_stage thd))"
    using n by (rule stage_succ_uint)
  with above have le: "stage_uint n \<le> stage_uint stage"
    by simp
  with named have "n \<noteq> BACKUP_FINISHED"
    by (rule stage_uint_bounds)
  with n have up: "ladder n = Suc (ladder (current_backup_stage thd))"
    by (rule stage_succ_ladder)
  obtain evs where
    tr: "trace (state_of (backup_stage_loop stage n ?thd0)) = trace ?thd0 @ evs"
    and chain: "\<forall>c. ladder c \<le> ladder n \<longrightarrow> steps_ok False (c # stage_writes evs)"
    using loop_no_reset [OF named not_end stage_succ_not_START [OF n] le, of ?thd0] by blast
  have "trace (state_of (run_backup_stage stage thd)) =
      trace thd @ (Dbug_enter ''run_backup_stage'' # evs)"
    using tr by (simp add: run_enters_loop [OF Some] log_def)
  then have "new_events thd (state_of (run_backup_stage stage thd)) =
      Dbug_enter ''run_backup_stage'' # evs"
    by (rule new_events_append)
  with chain up show ?thesis
    by simp
qed

section \<open>backup_end\<close>

text \<open>
  C3. \<open>backup_end\<close> returns success from every state and raises no error. On a session whose
  stage is \<open>BACKUP_FINISHED\<close> (one that never started a backup, or one that has just called
  \<open>backup_end\<close>) it changes nothing but the debug trace: the stage, \<open>backup_running\<close> and
  \<open>backup_flush_ticket\<close> are as before. A second call in a row is such a call.
\<close>

theorem end_backup_idempotent:
  "fst (backup_end thd) = False
   \<and> errors_of (new_events thd (snd (backup_end thd))) = []
   \<and> (current_backup_stage thd = BACKUP_FINISHED \<longrightarrow>
        snd (backup_end thd) = log (Dbug_enter ''backup_end'') thd
        \<and> current_backup_stage (snd (backup_end thd)) = current_backup_stage thd
        \<and> backup_running (snd (backup_end thd)) = backup_running thd
        \<and> backup_flush_ticket (snd (backup_end thd)) = backup_flush_ticket thd)
   \<and> backup_end (snd (backup_end thd)) =
       (False, log (Dbug_enter ''backup_end'') (snd (backup_end thd)))"
  by (simp add: backup_end_def step_defs release_lock_def new_events_def Let_def
      split: option.split)

theorem end_backup_idempotent_witness:
  "current_backup_stage thd_init = BACKUP_FINISHED
   \<and> backup_end thd_init = (False, log (Dbug_enter ''backup_end'') thd_init)
   \<and> backup_running (snd (backup_end thd_init)) = False
   \<and> backup_flush_ticket (snd (backup_end thd_init)) = None"
  using end_backup_idempotent [of thd_init]
  by (simp add: thd_init_def prod_eq_iff log_def)

section \<open>The alter-copy lock round trip\<close>

text \<open>
  C6, as the specification states it: \<open>backup_set_alter_copy_lock\<close> followed by a successful
  \<open>backup_reset_alter_copy_lock\<close> returns the ticket to the mode the lateral move left. The
  lock of the altering session that the specification calls WAIT_DDL is \<open>MDL_BACKUP_DDL\<close>
  here, and the reset always asks for that one. A ticket that was of type \<open>MDL_BACKUP_DML\<close>
  when it was downgraded does not come back to the mode it left: it comes back as
  \<open>MDL_BACKUP_DDL\<close>.
\<close>

theorem alter_copy_restores_WAIT_DDL_counterexample:
  "mdl_backup_ticket thd_altering_dml = Some 7
   \<and> tickets thd_altering_dml 7 = Some MDL_BACKUP_DML
   \<and> alter_copy_round_trip thd_altering_dml =
       Inr (False, state_of (alter_copy_round_trip thd_altering_dml))
   \<and> tickets (state_of (alter_copy_round_trip thd_altering_dml)) 7 = Some MDL_BACKUP_DDL
   \<and> tickets (state_of (alter_copy_round_trip thd_altering_dml)) 7 \<noteq> tickets thd_altering_dml 7
   \<and> trace (state_of (alter_copy_round_trip thd_altering_dml)) =
       [Downgrade_lock 7 MDL_BACKUP_ALTER_COPY, Upgrade_lock 7 MDL_BACKUP_DDL True]"
  by (simp add: alter_copy_round_trip_def backup_set_alter_copy_lock_def
      backup_reset_alter_copy_lock_def collaborator_defs log_def thd_init_def
      thd_altering_dml_def state_of_def)

text \<open>
  C6, amended. For a session whose \<open>mdl_backup_ticket\<close> is a granted ticket, the downgrade
  followed by the reset returns; the lock manager is asked for \<open>MDL_BACKUP_ALTER_COPY\<close> and
  then for \<open>MDL_BACKUP_DDL\<close>, and the ticket is left in mode \<open>MDL_BACKUP_DDL\<close> (the
  specification's WAIT_DDL) when the reset succeeds, whichever mode the ticket had before the
  downgrade: the round trip gives the ticket its mode back exactly when that mode was
  \<open>MDL_BACKUP_DDL\<close>. When the reset fails the ticket stays in \<open>MDL_BACKUP_ALTER_COPY\<close>.
  For a session with no ticket the reset returns success and changes nothing.
\<close>

theorem alter_copy_round_trip_mode:
  "(mdl_backup_ticket thd = Some t \<and> tickets thd t = Some m \<longrightarrow>
      (\<exists>res thd'. alter_copy_round_trip thd = Inr (res, thd')
         \<and> tickets thd' t = Some (if res then MDL_BACKUP_ALTER_COPY else MDL_BACKUP_DDL)
         \<and> (\<not> res \<longrightarrow> (tickets thd' t = tickets thd t) = (m = MDL_BACKUP_DDL))
         \<and> new_events thd thd' =
             [Downgrade_lock t MDL_BACKUP_ALTER_COPY, Upgrade_lock t MDL_BACKUP_DDL (\<not> res)]))
   \<and> (mdl_backup_ticket thd = None \<longrightarrow> backup_reset_alter_copy_lock thd = Inr (False, thd))"
  by (auto simp add: alter_copy_round_trip_def backup_set_alter_copy_lock_def
      backup_reset_alter_copy_lock_def collaborator_defs log_def new_events_def Let_def
      split: list.split)

theorem alter_copy_round_trip_mode_witness:
  "mdl_backup_ticket thd_altering = Some 7
   \<and> tickets thd_altering 7 = Some MDL_BACKUP_DDL
   \<and> alter_copy_round_trip thd_altering =
       Inr (False, state_of (alter_copy_round_trip thd_altering))
   \<and> tickets (state_of (alter_copy_round_trip thd_altering)) 7 = Some MDL_BACKUP_DDL
   \<and> tickets (state_of (alter_copy_round_trip thd_altering)) 7 = tickets thd_altering 7
   \<and> mdl_backup_ticket thd_init = None
   \<and> backup_reset_alter_copy_lock thd_init = Inr (False, thd_init)"
  using alter_copy_round_trip_mode [of thd_altering 7 MDL_BACKUP_DDL]
    alter_copy_round_trip_mode [of thd_init]
  by (simp add: alter_copy_round_trip_def backup_set_alter_copy_lock_def
      backup_reset_alter_copy_lock_def collaborator_defs log_def thd_init_def thd_altering_def
      state_of_def)

section \<open>The flush ticket and the stage\<close>

text \<open>
  C5. The ticket is meant to be held exactly from \<open>BACKUP_FLUSH\<close> up to \<open>BACKUP_END\<close>. A
  session has started a backup and asks for FLUSH; the lock manager lets the acquisition time
  out.
  \<open>run_backup_stage\<close> has already set the stage to \<open>BACKUP_FLUSH\<close> and
  \<open>backup_flush\<close> returns without a ticket: the session rests at \<open>BACKUP_FLUSH\<close> with
  \<open>backup_flush_ticket\<close> null. The next request, BLOCK_DDL, hands the null pointer to
  \<open>upgrade_shared_lock\<close>.
\<close>

theorem flush_failure_breaks_ticket_invariant:
  "run_backup_stage BACKUP_FLUSH (thd_started\<lparr>lock_script := [True]\<rparr>) =
     Inr (True, state_of (run_backup_stage BACKUP_FLUSH (thd_started\<lparr>lock_script := [True]\<rparr>)))
   \<and> current_backup_stage
       (state_of (run_backup_stage BACKUP_FLUSH (thd_started\<lparr>lock_script := [True]\<rparr>)))
       = BACKUP_FLUSH
   \<and> backup_flush_ticket
       (state_of (run_backup_stage BACKUP_FLUSH (thd_started\<lparr>lock_script := [True]\<rparr>)))
       = None
   \<and> trace (state_of (run_backup_stage BACKUP_FLUSH (thd_started\<lparr>lock_script := [True]\<rparr>))) =
       [Dbug_enter ''run_backup_stage'', Set_stage BACKUP_FLUSH, Dbug_enter ''backup_flush'',
        Acquire_lock MDL_BACKUP_FLUSH None,
        My_error (ER_BACKUP_STAGE_FAILED (Some ''FLUSH''))]
   \<and> run_backup_stage BACKUP_WAIT_FOR_FLUSH
       (state_of (run_backup_stage BACKUP_FLUSH (thd_started\<lparr>lock_script := [True]\<rparr>))) =
       Inl (Bad_ticket,
         state_of
           (run_backup_stage BACKUP_WAIT_FOR_FLUSH
              (state_of (run_backup_stage BACKUP_FLUSH (thd_started\<lparr>lock_script := [True]\<rparr>)))))"
  by (simp add: run_defs handler_defs collaborator_defs step_defs thd_init_def thd_started_def
      state_of_def)

section \<open>backup_block_ddl\<close>

text \<open>
  C8. The handler upgrades to \<open>MDL_BACKUP_WAIT_FLUSH\<close>, flushes the non-transactional tables
  and upgrades to \<open>MDL_BACKUP_WAIT_DDL\<close>. When \<open>flush_tables\<close> fails and the session has no
  error, the handler does not go on to the second upgrade: it returns success at once. The
  session below rests at \<open>BACKUP_WAIT_FOR_FLUSH\<close> (BLOCK_DDL done, as far as the caller can
  tell) with its ticket still in mode \<open>MDL_BACKUP_WAIT_FLUSH\<close>, and the lock manager was
  never asked for \<open>MDL_BACKUP_WAIT_DDL\<close>.
\<close>

theorem tolerated_flush_failure_skips_WAIT_DDL:
  "run_backup_stage BACKUP_WAIT_FOR_FLUSH (thd_flushed\<lparr>flush_script := [(True, False)]\<rparr>) =
     Inr (False,
       state_of
         (run_backup_stage BACKUP_WAIT_FOR_FLUSH (thd_flushed\<lparr>flush_script := [(True, False)]\<rparr>)))
   \<and> \<not> is_error
       (state_of
          (run_backup_stage BACKUP_WAIT_FOR_FLUSH (thd_flushed\<lparr>flush_script := [(True, False)]\<rparr>)))
   \<and> current_backup_stage
       (state_of
          (run_backup_stage BACKUP_WAIT_FOR_FLUSH (thd_flushed\<lparr>flush_script := [(True, False)]\<rparr>)))
       = BACKUP_WAIT_FOR_FLUSH
   \<and> backup_flush_ticket
       (state_of
          (run_backup_stage BACKUP_WAIT_FOR_FLUSH (thd_flushed\<lparr>flush_script := [(True, False)]\<rparr>)))
       = Some 1
   \<and> tickets
       (state_of
          (run_backup_stage BACKUP_WAIT_FOR_FLUSH (thd_flushed\<lparr>flush_script := [(True, False)]\<rparr>)))
       1 = Some MDL_BACKUP_WAIT_FLUSH
   \<and> trace
       (state_of
          (run_backup_stage BACKUP_WAIT_FOR_FLUSH (thd_flushed\<lparr>flush_script := [(True, False)]\<rparr>)))
       = [Dbug_enter ''run_backup_stage'', Set_stage BACKUP_WAIT_FOR_FLUSH,
          Dbug_enter ''backup_block_ddl'', Upgrade_lock 1 MDL_BACKUP_WAIT_FLUSH True,
          Flush_tables FLUSH_NON_TRANS_TABLES True]"
  by (simp add: run_defs handler_defs collaborator_defs step_defs thd_init_def thd_flushed_def
      state_of_def)

section \<open>The checks before the first stage\<close>

text \<open>
  C1. A session whose stage is \<open>BACKUP_FINISHED\<close> is refused every request but START with
  \<open>ER_BACKUP_NOT_RUNNING\<close>. A session in a backup is refused, with \<open>ER_BACKUP_WRONG_STAGE\<close>
  naming the requested and the current stage, every request for a stage of the ladder that
  is not above its own; such a request is never END, and END is accepted and succeeds.
  No other request is refused: START from \<open>BACKUP_FINISHED\<close>, and in a backup a stage above
  the current one, raise neither of the two errors.
  The session is one between two calls: its stage is not \<open>BACKUP_END\<close>, which no call
  leaves (lemma \<open>stage_never_rests_at_END\<close>). The requests are the five that have a name.
\<close>

theorem run_backup_stage_validation:
  "(current_backup_stage thd = BACKUP_FINISHED \<and> stage \<noteq> BACKUP_START \<longrightarrow>
      run_backup_stage stage thd =
        Inr (True, my_error ER_BACKUP_NOT_RUNNING (log (Dbug_enter ''run_backup_stage'') thd)))
   \<and> (current_backup_stage thd \<noteq> BACKUP_FINISHED \<and> current_backup_stage thd \<noteq> BACKUP_END
        \<and> stage \<noteq> BACKUP_FINISHED \<and> ladder stage \<le> ladder (current_backup_stage thd) \<longrightarrow>
      stage \<noteq> BACKUP_END
      \<and> run_backup_stage stage thd =
          Inr (True,
            my_error
              (ER_BACKUP_WRONG_STAGE (stage_names stage)
                 (stage_names (current_backup_stage thd)))
              (log (Dbug_enter ''run_backup_stage'') thd)))
   \<and> (current_backup_stage thd \<noteq> BACKUP_FINISHED \<and> current_backup_stage thd \<noteq> BACKUP_END \<longrightarrow>
      run_backup_stage BACKUP_END thd =
        Inr (False, state_of (run_backup_stage BACKUP_END thd))
      \<and> errors_of (new_events thd (state_of (run_backup_stage BACKUP_END thd))) = [])
   \<and> ((current_backup_stage thd = BACKUP_FINISHED \<and> stage = BACKUP_START)
        \<or> (current_backup_stage thd \<noteq> BACKUP_FINISHED \<and> stage \<noteq> BACKUP_FINISHED
             \<and> ladder (current_backup_stage thd) < ladder stage) \<longrightarrow>
      \<not> list_ex refusal
          (errors_of (new_events thd (state_of (run_backup_stage stage thd)))))"
proof (intro conjI impI)
  assume "current_backup_stage thd = BACKUP_FINISHED \<and> stage \<noteq> BACKUP_START"
  then show "run_backup_stage stage thd =
      Inr (True, my_error ER_BACKUP_NOT_RUNNING (log (Dbug_enter ''run_backup_stage'') thd))"
    by (simp add: run_backup_stage_def step_defs)
next
  assume a: "current_backup_stage thd \<noteq> BACKUP_FINISHED \<and> current_backup_stage thd \<noteq> BACKUP_END
    \<and> stage \<noteq> BACKUP_FINISHED \<and> ladder stage \<le> ladder (current_backup_stage thd)"
  then show "stage \<noteq> BACKUP_END"
    by (cases "current_backup_stage thd") auto
  from a have "stage_uint stage \<le> stage_uint (current_backup_stage thd)"
    using ladder_uint [of stage "current_backup_stage thd"] by simp
  with a show "run_backup_stage stage thd =
      Inr (True,
        my_error
          (ER_BACKUP_WRONG_STAGE (stage_names stage) (stage_names (current_backup_stage thd)))
          (log (Dbug_enter ''run_backup_stage'') thd))"
    by (simp add: run_backup_stage_def step_defs)
next
  assume a: "current_backup_stage thd \<noteq> BACKUP_FINISHED \<and> current_backup_stage thd \<noteq> BACKUP_END"
  then have e: "run_backup_stage BACKUP_END thd =
      Inr (backup_end (set_stage BACKUP_END (log (Dbug_enter ''run_backup_stage'') thd)))"
    by (simp add: run_backup_stage_END)
  show "run_backup_stage BACKUP_END thd =
      Inr (False, state_of (run_backup_stage BACKUP_END thd))"
    unfolding e
    by (simp add: state_of_def backup_end_def step_defs release_lock_def Let_def
        split: option.split)
  show "errors_of (new_events thd (state_of (run_backup_stage BACKUP_END thd))) = []"
    unfolding e
    by (simp add: state_of_def new_events_def backup_end_def step_defs release_lock_def Let_def
        split: option.split)
next
  assume a: "(current_backup_stage thd = BACKUP_FINISHED \<and> stage = BACKUP_START)
    \<or> (current_backup_stage thd \<noteq> BACKUP_FINISHED \<and> stage \<noteq> BACKUP_FINISHED
         \<and> ladder (current_backup_stage thd) < ladder stage)"
  then have named: "stage \<noteq> BACKUP_FINISHED"
    by auto
  from a have accepted: "first_stage stage thd \<noteq> None"
    by (rule accepted_first_stage)
  obtain evs where
    tr: "trace (state_of (run_backup_stage stage thd)) = trace thd @ evs"
    and "first_stage stage thd \<noteq> None \<longrightarrow> \<not> list_ex refusal (errors_of evs)"
    using run_summary [OF named, of thd] by blast
  with accepted new_events_append [OF tr]
  show "\<not> list_ex refusal (errors_of (new_events thd (state_of (run_backup_stage stage thd))))"
    by simp
qed

theorem run_backup_stage_validation_witness:
  "current_backup_stage thd_init = BACKUP_FINISHED
   \<and> run_backup_stage BACKUP_LOCK_COMMIT thd_init =
       Inr (True, my_error ER_BACKUP_NOT_RUNNING (log (Dbug_enter ''run_backup_stage'') thd_init))
   \<and> current_backup_stage thd_flushed = BACKUP_FLUSH
   \<and> ladder BACKUP_FLUSH \<le> ladder (current_backup_stage thd_flushed)
   \<and> run_backup_stage BACKUP_FLUSH thd_flushed =
       Inr (True,
         my_error (ER_BACKUP_WRONG_STAGE (Some ''FLUSH'') (Some ''FLUSH''))
           (log (Dbug_enter ''run_backup_stage'') thd_flushed))
   \<and> run_backup_stage BACKUP_END thd_flushed =
       Inr (False, state_of (run_backup_stage BACKUP_END thd_flushed))
   \<and> errors_of (new_events thd_flushed (state_of (run_backup_stage BACKUP_END thd_flushed))) = []
   \<and> ladder (current_backup_stage thd_flushed) < ladder BACKUP_LOCK_COMMIT
   \<and> \<not> list_ex refusal
         (errors_of
            (new_events thd_flushed (state_of (run_backup_stage BACKUP_LOCK_COMMIT thd_flushed))))
   \<and> \<not> list_ex refusal
         (errors_of (new_events thd_init (state_of (run_backup_stage BACKUP_START thd_init))))"
  using run_backup_stage_validation [of thd_init BACKUP_LOCK_COMMIT]
    run_backup_stage_validation [of thd_flushed BACKUP_FLUSH]
    run_backup_stage_validation [of thd_flushed BACKUP_LOCK_COMMIT]
    run_backup_stage_validation [of thd_init BACKUP_START]
  by (simp add: thd_init_def thd_flushed_def)

section \<open>The request for END\<close>

text \<open>
  C2. From every stage a session in a backup can rest at, the request for END returns success.
  Only \<open>backup_end\<close> is entered: the stage is assigned \<open>BACKUP_END\<close> and then
  \<open>BACKUP_FINISHED\<close>, no stage in between. The ticket in \<open>backup_flush_ticket\<close> is released
  once if there is one, nothing is released if there is none, and the pointer is null
  afterwards.
\<close>

theorem end_request_runs_only_end_handler:
  assumes "current_backup_stage thd \<noteq> BACKUP_FINISHED"
    and "current_backup_stage thd \<noteq> BACKUP_END"
  shows "run_backup_stage BACKUP_END thd =
           Inr (False, state_of (run_backup_stage BACKUP_END thd))
   \<and> new_events thd (state_of (run_backup_stage BACKUP_END thd)) =
       [Dbug_enter ''run_backup_stage'', Set_stage BACKUP_END, Dbug_enter ''backup_end'',
        Set_stage BACKUP_FINISHED]
       @ (case backup_flush_ticket thd of None \<Rightarrow> [] | Some t \<Rightarrow> [Release_lock t])
       @ [Ha_end_backup, Mutex_lock, Set_running False, Cond_signal, Mutex_unlock]
   \<and> handlers_entered (new_events thd (state_of (run_backup_stage BACKUP_END thd))) =
       [''backup_end'']
   \<and> releases (new_events thd (state_of (run_backup_stage BACKUP_END thd))) =
       (case backup_flush_ticket thd of None \<Rightarrow> [] | Some t \<Rightarrow> [t])
   \<and> current_backup_stage (state_of (run_backup_stage BACKUP_END thd)) = BACKUP_FINISHED
   \<and> backup_flush_ticket (state_of (run_backup_stage BACKUP_END thd)) = None
   \<and> backup_running (state_of (run_backup_stage BACKUP_END thd)) = False"
  unfolding run_backup_stage_END [OF assms]
  by (simp add: state_of_def new_events_def backup_end_def step_defs release_lock_def Let_def
      split: option.split)

theorem end_request_runs_only_end_handler_witness:
  "current_backup_stage thd_flushed \<noteq> BACKUP_FINISHED
   \<and> current_backup_stage thd_flushed \<noteq> BACKUP_END
   \<and> run_backup_stage BACKUP_END thd_flushed =
       Inr (False, state_of (run_backup_stage BACKUP_END thd_flushed))
   \<and> handlers_entered (new_events thd_flushed (state_of (run_backup_stage BACKUP_END thd_flushed))) =
       [''backup_end'']
   \<and> releases (new_events thd_flushed (state_of (run_backup_stage BACKUP_END thd_flushed))) = [1]
   \<and> current_backup_stage (state_of (run_backup_stage BACKUP_END thd_flushed)) = BACKUP_FINISHED
   \<and> backup_flush_ticket (state_of (run_backup_stage BACKUP_END thd_flushed)) = None"
proof -
  have h1: "current_backup_stage thd_flushed \<noteq> BACKUP_FINISHED"
    and h2: "current_backup_stage thd_flushed \<noteq> BACKUP_END"
    by (simp_all add: thd_flushed_def thd_init_def)
  have "backup_flush_ticket thd_flushed = Some 1"
    by (simp add: thd_flushed_def thd_init_def)
  with end_request_runs_only_end_handler [OF h1 h2] h1 h2 show ?thesis
    by simp
qed

section \<open>The stage only goes up\<close>

text \<open>
  C9, as the specification states it: between START and the next END or failure at START,
  every assignment to the stage keeps it or raises it, and the stage goes back to
  \<open>BACKUP_FINISHED\<close> only when START fails or END is reached. A START that succeeds assigns
  \<open>BACKUP_START\<close> (in \<open>run_backup_stage\<close>), then \<open>BACKUP_FINISHED\<close> and \<open>BACKUP_START\<close>
  again (in \<open>backup_start\<close>, around its read-only check, "For next test"): the stage went
  back to \<open>BACKUP_FINISHED\<close> in a call that neither failed nor reached END.
\<close>

theorem stage_monotone_counterexample:
  "run_backup_stage BACKUP_START thd_init =
     Inr (False, state_of (run_backup_stage BACKUP_START thd_init))
   \<and> stage_writes (new_events thd_init (state_of (run_backup_stage BACKUP_START thd_init))) =
       [BACKUP_START, BACKUP_FINISHED, BACKUP_START]
   \<and> \<not> steps_ok
         (run_backup_stage BACKUP_START thd_init =
            Inr (True, state_of (run_backup_stage BACKUP_START thd_init))
          \<or> BACKUP_END
               \<in> set (stage_writes
                        (new_events thd_init (state_of (run_backup_stage BACKUP_START thd_init)))))
         (current_backup_stage thd_init
            # stage_writes (new_events thd_init (state_of (run_backup_stage BACKUP_START thd_init))))"
  by (simp add: run_defs handler_defs collaborator_defs step_defs thd_init_def new_events_def
      state_of_def)

text \<open>
  C9, amended. For every request for one of the five named stages, across every assignment to
  the stage the stage never goes down the ladder, and it goes back to \<open>BACKUP_FINISHED\<close>
  only when START fails or END is reached, but for one assignment: \<open>backup_start\<close> begins by
  clearing the stage to \<open>BACKUP_FINISHED\<close>, and sets it back to \<open>BACKUP_START\<close> when its
  read-only check has passed. The assignments are:
  \<^item> for START from \<open>BACKUP_FINISHED\<close>: \<open>BACKUP_START\<close>, the clearing \<open>BACKUP_FINISHED\<close>,
    \<open>BACKUP_START\<close> again unless the read-only check fails, and a last
    \<open>BACKUP_FINISHED\<close> exactly when the call fails;
  \<^item> for END in a backup: \<open>BACKUP_END\<close>, then \<open>BACKUP_FINISHED\<close>;
  \<^item> for another stage in a backup: a sequence that never goes down the ladder from the
    current stage and holds no \<open>BACKUP_FINISHED\<close>;
  \<^item> none for a request that is refused.
  Between calls: the stage a call leaves is not below the stage it found unless it is
  \<open>BACKUP_FINISHED\<close>; a session in a backup is left at \<open>BACKUP_FINISHED\<close> only by the
  request for END, and a START request leaves \<open>BACKUP_FINISHED\<close> exactly when it fails.
\<close>

theorem stage_monotone_between_calls:
  assumes named: "stage \<noteq> BACKUP_FINISHED"
  shows "steps_ok True
           (current_backup_stage thd
              # stage_writes (new_events thd (state_of (run_backup_stage stage thd))))
     \<and> (current_backup_stage (state_of (run_backup_stage stage thd)) \<noteq> BACKUP_FINISHED \<longrightarrow>
          ladder (current_backup_stage thd)
            \<le> ladder (current_backup_stage (state_of (run_backup_stage stage thd))))
     \<and> (current_backup_stage (state_of (run_backup_stage stage thd)) = BACKUP_FINISHED
          \<and> current_backup_stage thd \<noteq> BACKUP_FINISHED \<longrightarrow> stage = BACKUP_END)
     \<and> (current_backup_stage thd = BACKUP_FINISHED \<and> stage = BACKUP_START \<longrightarrow>
          (current_backup_stage (state_of (run_backup_stage stage thd)) = BACKUP_FINISHED)
            = (run_backup_stage stage thd = Inr (True, state_of (run_backup_stage stage thd))))
     \<and> (current_backup_stage thd = BACKUP_FINISHED \<and> stage = BACKUP_START \<longrightarrow>
          stage_writes (new_events thd (state_of (run_backup_stage stage thd))) =
            [BACKUP_START, BACKUP_FINISHED]
            @ (if read_only_protection thd then [] else [BACKUP_START])
            @ (if run_backup_stage stage thd = Inr (True, state_of (run_backup_stage stage thd))
               then [BACKUP_FINISHED] else [])
          \<and> steps_ok
               (run_backup_stage stage thd = Inr (True, state_of (run_backup_stage stage thd)))
               (BACKUP_START
                  # drop 2 (stage_writes (new_events thd (state_of (run_backup_stage stage thd))))))
     \<and> (current_backup_stage thd \<noteq> BACKUP_FINISHED \<and> current_backup_stage thd \<noteq> BACKUP_END
          \<and> stage = BACKUP_END \<longrightarrow>
          stage_writes (new_events thd (state_of (run_backup_stage stage thd))) =
            [BACKUP_END, BACKUP_FINISHED])
     \<and> (current_backup_stage thd \<noteq> BACKUP_FINISHED \<and> stage \<noteq> BACKUP_END \<longrightarrow>
          steps_ok False
            (current_backup_stage thd
               # stage_writes (new_events thd (state_of (run_backup_stage stage thd)))))
     \<and> (first_stage stage thd = None \<longrightarrow>
          stage_writes (new_events thd (state_of (run_backup_stage stage thd))) = [])"
proof -
  have between: "steps_ok True
           (current_backup_stage thd
              # stage_writes (new_events thd (state_of (run_backup_stage stage thd))))
     \<and> (current_backup_stage (state_of (run_backup_stage stage thd)) \<noteq> BACKUP_FINISHED \<longrightarrow>
          ladder (current_backup_stage thd)
            \<le> ladder (current_backup_stage (state_of (run_backup_stage stage thd))))
     \<and> (current_backup_stage (state_of (run_backup_stage stage thd)) = BACKUP_FINISHED
          \<and> current_backup_stage thd \<noteq> BACKUP_FINISHED \<longrightarrow> stage = BACKUP_END)
     \<and> (current_backup_stage thd = BACKUP_FINISHED \<and> stage = BACKUP_START \<longrightarrow>
          (current_backup_stage (state_of (run_backup_stage stage thd)) = BACKUP_FINISHED)
            = (run_backup_stage stage thd = Inr (True, state_of (run_backup_stage stage thd))))"
  proof -
    let ?cur = "current_backup_stage thd"
    let ?run = "run_backup_stage stage thd"
    let ?c1 = "current_backup_stage (state_of ?run)"
    obtain evs where
      tr: "trace (state_of ?run) = trace thd @ evs"
      and chain: "steps_ok True (?cur # stage_writes evs)"
      and mono: "?cur \<noteq> BACKUP_FINISHED \<and> stage \<noteq> BACKUP_END \<longrightarrow> ladder ?cur \<le> ladder ?c1"
      using run_summary [OF named, of thd] by blast
    have "steps_ok True (?cur # stage_writes (new_events thd (state_of ?run)))"
      using chain new_events_append [OF tr] by simp
    moreover have "ladder ?cur \<le> ladder ?c1" if left: "?c1 \<noteq> BACKUP_FINISHED"
    proof (cases "?cur = BACKUP_FINISHED \<or> stage \<noteq> BACKUP_END")
      case True
      with mono show ?thesis
        by auto
    next
      case False
      then have ending: "?cur \<noteq> BACKUP_FINISHED" "stage = BACKUP_END"
        by simp_all
      show ?thesis
      proof (cases "?cur = BACKUP_END")
        case True
        with ending have "?run = Inr (True,
            my_error (ER_BACKUP_WRONG_STAGE (stage_names stage) (stage_names ?cur))
              (log (Dbug_enter ''run_backup_stage'') thd))"
          by (simp add: run_backup_stage_def log_def)
        then show ?thesis
          by (simp add: state_of_def step_defs)
      next
        case False
        with ending have "?run = Inr (backup_end
            (set_stage BACKUP_END (log (Dbug_enter ''run_backup_stage'') thd)))"
          by (simp add: run_backup_stage_END)
        then have "?c1 = BACKUP_FINISHED"
          by (simp add: state_of_def backup_end_def step_defs release_lock_def Let_def
              split: option.split)
        with left show ?thesis
          by simp
      qed
    qed
    moreover have "stage = BACKUP_END" if "?c1 = BACKUP_FINISHED \<and> ?cur \<noteq> BACKUP_FINISHED"
    proof (rule ccontr)
      assume "stage \<noteq> BACKUP_END"
      with that mono have "ladder ?cur = 0"
        by simp
      with that show False
        by (simp add: ladder_zero)
    qed
    moreover have "(?c1 = BACKUP_FINISHED) = (?run = Inr (True, state_of ?run))"
      if "?cur = BACKUP_FINISHED \<and> stage = BACKUP_START"
      using that start_request [of thd] by simp
    ultimately show ?thesis
      by blast
  qed
  have starting: "stage_writes (new_events thd (state_of (run_backup_stage stage thd))) =
            [BACKUP_START, BACKUP_FINISHED]
            @ (if read_only_protection thd then [] else [BACKUP_START])
            @ (if run_backup_stage stage thd = Inr (True, state_of (run_backup_stage stage thd))
               then [BACKUP_FINISHED] else [])
          \<and> steps_ok
               (run_backup_stage stage thd = Inr (True, state_of (run_backup_stage stage thd)))
               (BACKUP_START
                  # drop 2 (stage_writes (new_events thd (state_of (run_backup_stage stage thd)))))"
    if "current_backup_stage thd = BACKUP_FINISHED \<and> stage = BACKUP_START"
  proof -
    from that have ws: "stage_writes (new_events thd (state_of (run_backup_stage stage thd))) =
        [BACKUP_START, BACKUP_FINISHED]
        @ (if read_only_protection thd then [] else [BACKUP_START])
        @ (if run_backup_stage stage thd = Inr (True, state_of (run_backup_stage stage thd))
           then [BACKUP_FINISHED] else [])"
      using start_request_writes [of thd] by simp
    then show ?thesis
      by simp
  qed
  have ending: "stage_writes (new_events thd (state_of (run_backup_stage stage thd))) =
      [BACKUP_END, BACKUP_FINISHED]"
    if "current_backup_stage thd \<noteq> BACKUP_FINISHED \<and> current_backup_stage thd \<noteq> BACKUP_END
      \<and> stage = BACKUP_END"
  proof -
    from that have "run_backup_stage stage thd = Inr (backup_end
        (set_stage BACKUP_END (log (Dbug_enter ''run_backup_stage'') thd)))"
      by (simp add: run_backup_stage_END)
    then show ?thesis
      by (simp add: state_of_def new_events_def backup_end_def step_defs release_lock_def
          Let_def split: option.split)
  qed
  have running: "steps_ok False
      (current_backup_stage thd
         # stage_writes (new_events thd (state_of (run_backup_stage stage thd))))"
    if "current_backup_stage thd \<noteq> BACKUP_FINISHED \<and> stage \<noteq> BACKUP_END"
    using that named by (simp add: running_request_writes)
  have refused: "stage_writes (new_events thd (state_of (run_backup_stage stage thd))) = []"
    if "first_stage stage thd = None"
    using that named by (rule refused_writes)
  from between starting ending running refused show ?thesis
    by blast
qed

theorem stage_monotone_between_calls_witness:
  "BACKUP_LOCK_COMMIT \<noteq> BACKUP_FINISHED
   \<and> steps_ok True
       (current_backup_stage thd_flushed
          # stage_writes
              (new_events thd_flushed (state_of (run_backup_stage BACKUP_LOCK_COMMIT thd_flushed))))
   \<and> current_backup_stage (state_of (run_backup_stage BACKUP_LOCK_COMMIT thd_flushed))
       = BACKUP_LOCK_COMMIT
   \<and> ladder (current_backup_stage thd_flushed)
       \<le> ladder (current_backup_stage (state_of (run_backup_stage BACKUP_LOCK_COMMIT thd_flushed)))
   \<and> stage_writes
       (new_events thd_flushed (state_of (run_backup_stage BACKUP_LOCK_COMMIT thd_flushed)))
       = [BACKUP_WAIT_FOR_FLUSH, BACKUP_LOCK_COMMIT]
   \<and> steps_ok False
       (current_backup_stage thd_flushed
          # stage_writes
              (new_events thd_flushed (state_of (run_backup_stage BACKUP_LOCK_COMMIT thd_flushed))))
   \<and> current_backup_stage thd_init = BACKUP_FINISHED
   \<and> current_backup_stage (state_of (run_backup_stage BACKUP_START thd_init)) = BACKUP_START
   \<and> run_backup_stage BACKUP_START thd_init
       \<noteq> Inr (True, state_of (run_backup_stage BACKUP_START thd_init))
   \<and> stage_writes (new_events thd_init (state_of (run_backup_stage BACKUP_START thd_init)))
       = [BACKUP_START, BACKUP_FINISHED, BACKUP_START]
   \<and> current_backup_stage thd_flushed \<noteq> BACKUP_FINISHED
   \<and> current_backup_stage thd_flushed \<noteq> BACKUP_END
   \<and> stage_writes (new_events thd_flushed (state_of (run_backup_stage BACKUP_END thd_flushed)))
       = [BACKUP_END, BACKUP_FINISHED]
   \<and> first_stage BACKUP_FLUSH thd_flushed = None
   \<and> stage_writes (new_events thd_flushed (state_of (run_backup_stage BACKUP_FLUSH thd_flushed)))
       = []"
proof -
  have a: "BACKUP_LOCK_COMMIT \<noteq> BACKUP_FINISHED" and b: "BACKUP_START \<noteq> BACKUP_FINISHED"
    and c: "BACKUP_END \<noteq> BACKUP_FINISHED" and d: "BACKUP_FLUSH \<noteq> BACKUP_FINISHED"
    by simp_all
  have "current_backup_stage (state_of (run_backup_stage BACKUP_LOCK_COMMIT thd_flushed))
      = BACKUP_LOCK_COMMIT"
    and "stage_writes
       (new_events thd_flushed (state_of (run_backup_stage BACKUP_LOCK_COMMIT thd_flushed)))
       = [BACKUP_WAIT_FOR_FLUSH, BACKUP_LOCK_COMMIT]"
    by (simp_all add: run_defs handler_defs collaborator_defs step_defs thd_init_def
        thd_flushed_def state_of_def new_events_def)
  moreover have "current_backup_stage thd_init = BACKUP_FINISHED"
    "current_backup_stage thd_flushed = BACKUP_FLUSH"
    "first_stage BACKUP_FLUSH thd_flushed = None"
    by (simp_all add: thd_init_def thd_flushed_def first_stage_def)
  moreover have "current_backup_stage (state_of (run_backup_stage BACKUP_START thd_init))
      = BACKUP_START"
    and "run_backup_stage BACKUP_START thd_init
       \<noteq> Inr (True, state_of (run_backup_stage BACKUP_START thd_init))"
    and "stage_writes (new_events thd_init (state_of (run_backup_stage BACKUP_START thd_init)))
       = [BACKUP_START, BACKUP_FINISHED, BACKUP_START]"
    by (simp_all add: run_defs handler_defs collaborator_defs step_defs thd_init_def state_of_def
        new_events_def)
  ultimately show ?thesis
    using stage_monotone_between_calls [OF a, of thd_flushed]
      stage_monotone_between_calls [OF b, of thd_init]
      stage_monotone_between_calls [OF c, of thd_flushed]
      stage_monotone_between_calls [OF d, of thd_flushed]
    by simp
qed

section \<open>The case BACKUP_FINISHED of the switch\<close>

text \<open>
  C10. When the requested stage is one of the five named stages, no call reaches the case
  \<open>BACKUP_FINISHED\<close> of the switch (the \<open>DBUG_ASSERT(0)\<close>), and every entry of
  \<open>stage_names\<close> handed to \<open>my_error\<close> is one of the five names. The condition is needed:
  when \<open>BACKUP_FINISHED\<close> is requested from a session in a backup, the request is accepted
  and the loop runs all the remaining stages; a call that returns success has then reached
  that case, and a call that returns failure has handed \<open>my_error\<close> the sixth entry of
  \<open>stage_names\<close>, the null pointer.
\<close>

theorem finished_case_needs_named_stage:
  "(stage \<noteq> BACKUP_FINISHED \<longrightarrow>
      Dbug_assert_0 \<notin> set (new_events thd (state_of (run_backup_stage stage thd)))
      \<and> list_all names_valid
          (errors_of (new_events thd (state_of (run_backup_stage stage thd)))))
   \<and> (current_backup_stage thd \<noteq> BACKUP_FINISHED \<longrightarrow>
        (run_backup_stage BACKUP_FINISHED thd =
           Inr (False, state_of (run_backup_stage BACKUP_FINISHED thd)) \<longrightarrow>
         Dbug_assert_0 \<in> set (new_events thd (state_of (run_backup_stage BACKUP_FINISHED thd))))
        \<and> (run_backup_stage BACKUP_FINISHED thd =
             Inr (True, state_of (run_backup_stage BACKUP_FINISHED thd)) \<longrightarrow>
           ER_BACKUP_STAGE_FAILED (stage_names BACKUP_FINISHED)
             \<in> set (errors_of
                      (new_events thd (state_of (run_backup_stage BACKUP_FINISHED thd))))))
   \<and> \<not> names_valid (ER_BACKUP_STAGE_FAILED (stage_names BACKUP_FINISHED))"
proof (intro conjI impI)
  assume named: "stage \<noteq> BACKUP_FINISHED"
  obtain evs where
    tr: "trace (state_of (run_backup_stage stage thd)) = trace thd @ evs"
    and clean: "Dbug_assert_0 \<notin> set evs" "list_all names_valid (errors_of evs)"
    using run_summary [OF named, of thd] by blast
  from clean new_events_append [OF tr]
  show "Dbug_assert_0 \<notin> set (new_events thd (state_of (run_backup_stage stage thd)))"
    and "list_all names_valid (errors_of (new_events thd (state_of (run_backup_stage stage thd))))"
    by simp_all
next
  assume "current_backup_stage thd \<noteq> BACKUP_FINISHED"
    and "run_backup_stage BACKUP_FINISHED thd =
      Inr (False, state_of (run_backup_stage BACKUP_FINISHED thd))"
  then show "Dbug_assert_0
      \<in> set (new_events thd (state_of (run_backup_stage BACKUP_FINISHED thd)))"
    using run_requested_FINISHED [of thd] by blast
next
  assume "current_backup_stage thd \<noteq> BACKUP_FINISHED"
    and "run_backup_stage BACKUP_FINISHED thd =
      Inr (True, state_of (run_backup_stage BACKUP_FINISHED thd))"
  then show "ER_BACKUP_STAGE_FAILED (stage_names BACKUP_FINISHED)
      \<in> set (errors_of (new_events thd (state_of (run_backup_stage BACKUP_FINISHED thd))))"
    using run_requested_FINISHED [of thd] by blast
next
  show "\<not> names_valid (ER_BACKUP_STAGE_FAILED (stage_names BACKUP_FINISHED))"
    by simp
qed

theorem finished_case_needs_named_stage_witness:
  "BACKUP_LOCK_COMMIT \<noteq> BACKUP_FINISHED
   \<and> Dbug_assert_0
       \<notin> set (new_events thd_flushed (state_of (run_backup_stage BACKUP_LOCK_COMMIT thd_flushed)))
   \<and> list_all names_valid
       (errors_of (new_events thd_flushed (state_of (run_backup_stage BACKUP_LOCK_COMMIT thd_flushed))))
   \<and> current_backup_stage thd_flushed \<noteq> BACKUP_FINISHED
   \<and> run_backup_stage BACKUP_FINISHED thd_flushed =
       Inr (False, state_of (run_backup_stage BACKUP_FINISHED thd_flushed))
   \<and> Dbug_assert_0
       \<in> set (new_events thd_flushed (state_of (run_backup_stage BACKUP_FINISHED thd_flushed)))
   \<and> run_backup_stage BACKUP_FINISHED (thd_flushed\<lparr>lock_script := [True]\<rparr>) =
       Inr (True, state_of (run_backup_stage BACKUP_FINISHED (thd_flushed\<lparr>lock_script := [True]\<rparr>)))
   \<and> errors_of
        (new_events (thd_flushed\<lparr>lock_script := [True]\<rparr>)
           (state_of (run_backup_stage BACKUP_FINISHED (thd_flushed\<lparr>lock_script := [True]\<rparr>))))
       = [ER_BACKUP_STAGE_FAILED None]"
proof -
  let ?t = "thd_flushed\<lparr>lock_script := [True]\<rparr>"
  have running: "current_backup_stage thd_flushed \<noteq> BACKUP_FINISHED"
    "current_backup_stage ?t \<noteq> BACKUP_FINISHED"
    by (simp_all add: thd_flushed_def thd_init_def)
  have ok: "run_backup_stage BACKUP_FINISHED thd_flushed =
      Inr (False, state_of (run_backup_stage BACKUP_FINISHED thd_flushed))"
    by (simp add: run_defs handler_defs collaborator_defs step_defs thd_init_def thd_flushed_def
        state_of_def)
  have bad: "run_backup_stage BACKUP_FINISHED ?t =
      Inr (True, state_of (run_backup_stage BACKUP_FINISHED ?t))"
    by (simp add: run_defs handler_defs collaborator_defs step_defs thd_init_def thd_flushed_def
        state_of_def)
  have errs: "errors_of (new_events ?t (state_of (run_backup_stage BACKUP_FINISHED ?t)))
      = [ER_BACKUP_STAGE_FAILED None]"
    by (simp add: run_defs handler_defs collaborator_defs step_defs thd_init_def thd_flushed_def
        state_of_def new_events_def)
  show ?thesis
    using finished_case_needs_named_stage [of BACKUP_LOCK_COMMIT thd_flushed]
      finished_case_needs_named_stage [of BACKUP_LOCK_COMMIT ?t]
      running ok bad errs
    by simp
qed

section \<open>A handler that fails\<close>

text \<open>
  C4. When a call that was not refused returns failure, there is a stage \<open>f\<close> such that the
  handlers of the stages before \<open>f\<close> in the sequence have all run and succeeded, the handler
  of \<open>f\<close> has failed, and nothing was run after it: the call ends in the state that handler
  left, with the one error \<open>ER_BACKUP_STAGE_FAILED\<close> added, and that error carries the name
  of the requested stage. The stage is \<open>BACKUP_FINISHED\<close> when \<open>f\<close> is \<open>BACKUP_START\<close>, and
  \<open>f\<close> otherwise.
\<close>

theorem stage_failure_report:
  assumes fails: "run_backup_stage stage thd = Inr (True, thd')"
    and accepted: "first_stage stage thd = Some first"
  shows "\<exists>f thd1 thd2.
       succeeded_before f first (log (Dbug_enter ''run_backup_stage'') thd) = Some thd1
     \<and> run_stage_handler f (set_stage f thd1) = Inr (True, thd2)
     \<and> thd' = my_error (ER_BACKUP_STAGE_FAILED (stage_names stage)) thd2
     \<and> errors_of (new_events thd2 thd') = [ER_BACKUP_STAGE_FAILED (stage_names stage)]
     \<and> current_backup_stage thd' = (if f = BACKUP_START then BACKUP_FINISHED else f)"
proof -
  from fails run_enters_loop [OF accepted]
  have "backup_stage_loop stage first (log (Dbug_enter ''run_backup_stage'') thd) = Inr (True, thd')"
    by simp
  then obtain f thd1 thd2 where
    f: "succeeded_before f first (log (Dbug_enter ''run_backup_stage'') thd) = Some thd1"
      "run_stage_handler f (set_stage f thd1) = Inr (True, thd2)"
      "thd' = my_error (ER_BACKUP_STAGE_FAILED (stage_names stage)) thd2"
    using loop_failure by blast
  from failing_handler_stage [OF f(2)]
  have "current_backup_stage thd2 = (if f = BACKUP_START then BACKUP_FINISHED else f)"
    by simp
  with f(3) have "current_backup_stage thd' = (if f = BACKUP_START then BACKUP_FINISHED else f)"
    by (simp add: step_defs)
  moreover from f(3) have "errors_of (new_events thd2 thd') =
      [ER_BACKUP_STAGE_FAILED (stage_names stage)]"
    by (simp add: step_defs new_events_def)
  ultimately show ?thesis
    using f by blast
qed

theorem stage_failure_report_witness:
  "run_backup_stage BACKUP_LOCK_COMMIT (thd_started\<lparr>lock_script := [False, True]\<rparr>) =
     Inr (True,
       state_of (run_backup_stage BACKUP_LOCK_COMMIT (thd_started\<lparr>lock_script := [False, True]\<rparr>)))
   \<and> first_stage BACKUP_LOCK_COMMIT (thd_started\<lparr>lock_script := [False, True]\<rparr>)
       = Some BACKUP_FLUSH
   \<and> current_backup_stage
       (state_of (run_backup_stage BACKUP_LOCK_COMMIT (thd_started\<lparr>lock_script := [False, True]\<rparr>)))
       = BACKUP_WAIT_FOR_FLUSH
   \<and> errors_of
       (trace (state_of
          (run_backup_stage BACKUP_LOCK_COMMIT (thd_started\<lparr>lock_script := [False, True]\<rparr>))))
       = [ER_BACKUP_STAGE_FAILED (Some ''BLOCK_COMMIT'')]"
proof -
  let ?s = "thd_started\<lparr>lock_script := [False, True]\<rparr>"
  have fails: "run_backup_stage BACKUP_LOCK_COMMIT ?s =
      Inr (True, state_of (run_backup_stage BACKUP_LOCK_COMMIT ?s))"
    by (simp add: run_defs handler_defs collaborator_defs step_defs thd_init_def thd_started_def
        state_of_def)
  have accepted: "first_stage BACKUP_LOCK_COMMIT ?s = Some BACKUP_FLUSH"
    by (simp add: first_stage_def thd_started_def thd_init_def)
  have "current_backup_stage (state_of (run_backup_stage BACKUP_LOCK_COMMIT ?s))
      = BACKUP_WAIT_FOR_FLUSH"
    and "errors_of (trace (state_of (run_backup_stage BACKUP_LOCK_COMMIT ?s)))
      = [ER_BACKUP_STAGE_FAILED (Some ''BLOCK_COMMIT'')]"
    by (simp_all add: run_defs handler_defs collaborator_defs step_defs thd_init_def
        thd_started_def state_of_def)
  with stage_failure_report [OF fails accepted] fails accepted show ?thesis
    by simp
qed

section \<open>backup_start and the running flag\<close>




end
